theory Spec2Isabelle
  imports Main "HOL-Library.Word" "HOL-Library.Monad_Syntax"
begin

section \<open>The door-sensor sketch \<^verbatim>\<open>src/arduino/door_codes.ino\<close>\<close>

text \<open>
  The sketch decodes the tri-state pulse train of an SC2262 door sensor. It has three
  functions: \<^verbatim>\<open>findNextSpacer\<close> (the resynchroniser), \<^verbatim>\<open>readNextCode\<close> (the code
  reader) and \<^verbatim>\<open>loop\<close> (aggregation of repeated readings, majority vote, quiet period).
  Each is embedded below as a function on an explicit world state.
\<close>

subsection \<open>Configuration globals\<close>

text \<open>\<^verbatim>\<open>int short_min = 350; int long_min = 1200; int resend_count = 17;\<close>\<close>

definition short_min :: int where
  "short_min = 350"

definition long_min :: int where
  "long_min = 1200"

definition resend_count :: nat where
  "resend_count = 17"

subsection \<open>Durations and the tests the reader applies to them\<close>

text \<open>
  \<^verbatim>\<open>pulseIn\<close> returns an \<^verbatim>\<open>unsigned long\<close> (32 bits on every Arduino core), 0 on
  timeout. In \<^verbatim>\<open>first < short_min\<close> the \<^verbatim>\<open>int\<close> operand is converted to
  \<^verbatim>\<open>unsigned long\<close>, which \<open>word_of_int\<close> does.
\<close>

type_synonym duration = "32 word"

datatype pulse = SHORT | LONG | NONE

text \<open>Lines 95 and 113: \<^verbatim>\<open>first == 0 || first < short_min\<close>.\<close>

definition no_pulse :: "duration \<Rightarrow> bool" where
  "no_pulse d \<longleftrightarrow> d = 0 \<or> d < word_of_int short_min"

text \<open>Lines 130 and 132: \<^verbatim>\<open>first > long_min\<close>.\<close>

definition long_pulse :: "duration \<Rightarrow> bool" where
  "long_pulse d \<longleftrightarrow> d > word_of_int long_min"

text \<open>Line 134: \<^verbatim>\<open>first < long_min\<close>.\<close>

definition short_pulse :: "duration \<Rightarrow> bool" where
  "short_pulse d \<longleftrightarrow> d < word_of_int long_min"

text \<open>
  The sketch has no classifier function: the class of a duration is which of the three
  tests it passes, in the order in which \<^verbatim>\<open>readNextCode\<close> applies them. A duration
  that passes none of them has no class.
\<close>

definition classify :: "duration \<Rightarrow> pulse option" where
  "classify d =
     (if no_pulse d then Some NONE
      else if long_pulse d then Some LONG
      else if short_pulse d then Some SHORT
      else None)"

text \<open>The classifier as the specification words it (section 4.1).\<close>

definition spec_classify :: "duration \<Rightarrow> pulse" where
  "spec_classify d =
     (if d = 0 \<or> uint d < short_min then NONE
      else if uint d \<ge> long_min then LONG
      else SHORT)"

subsection \<open>Decoding one pair of pulses\<close>

text \<open>\<open>FLOAT\<close> is the tri-state the sketch writes as \<^verbatim>\<open>'F'\<close>.\<close>

datatype symbol = ZERO | ONE | FLOAT | INVALID

text \<open>
  The body of the \<^verbatim>\<open>for\<close> loop of \<^verbatim>\<open>readNextCode\<close> (lines 95 to 145) as a function
  of the two durations: every \<^verbatim>\<open>return 0\<close> is \<open>INVALID\<close>.
\<close>

definition decode :: "duration \<Rightarrow> duration \<Rightarrow> symbol" where
  "decode first second =
     (if first = 0 \<or> first < word_of_int short_min then INVALID
      else if second = 0 \<or> second < word_of_int short_min then INVALID
      else if first > word_of_int long_min \<and> second > word_of_int long_min then ONE
      else if second > word_of_int long_min then FLOAT
      else if first < word_of_int long_min \<and> second < word_of_int long_min then ZERO
      else INVALID)"

fun symbol_char :: "symbol \<Rightarrow> char" where
  "symbol_char ZERO = CHR ''0''"
| "symbol_char ONE = CHR ''1''"
| "symbol_char FLOAT = CHR ''F''"
| "symbol_char INVALID = CHR ''X''"

subsection \<open>The world: inputs, outputs and ghost counters\<close>

datatype level = LOW | HIGH

text \<open>
  The environment fixes what the pin will show: \<open>pulses env k\<close> is the value of the
  \<open>k\<close>-th call of \<^verbatim>\<open>pulseIn(pin, HIGH)\<close>, \<open>line env k\<close> the value of the \<open>k\<close>-th
  call of \<^verbatim>\<open>digitalRead(pin)\<close>.
\<close>

record env =
  pulses :: "nat \<Rightarrow> duration"
  line :: "nat \<Rightarrow> level"

datatype event =
    Print string
  | Print_num nat
  | Println string
  | Println_num nat
  | Delay_us nat
  | Delay_ms nat

text \<open>
  \<open>trace\<close> lists the serial output and the delays in the order in which they happen.
  \<open>spacer_calls\<close> and \<open>reader_calls\<close> count the calls of \<^verbatim>\<open>findNextSpacer\<close> and
  \<^verbatim>\<open>readNextCode\<close>; \<open>oob\<close> records a store outside an array. These three are ghost
  fields: the sketch has no such variables.
\<close>

record world =
  pulse_idx :: nat
  sample_idx :: nat
  trace :: "event list"
  spacer_calls :: nat
  reader_calls :: nat
  oob :: bool

definition pulseIn :: "env \<Rightarrow> world \<Rightarrow> duration \<times> world" where
  "pulseIn env w = (pulses env (pulse_idx w), w\<lparr>pulse_idx := Suc (pulse_idx w)\<rparr>)"

definition digitalRead :: "env \<Rightarrow> world \<Rightarrow> level \<times> world" where
  "digitalRead env w = (line env (sample_idx w), w\<lparr>sample_idx := Suc (sample_idx w)\<rparr>)"

definition emit :: "event \<Rightarrow> world \<Rightarrow> world" where
  "emit e w = w\<lparr>trace := trace w @ [e]\<rparr>"

subsection \<open>findNextSpacer\<close>

text \<open>
  The locals \<^verbatim>\<open>time\<close> and \<^verbatim>\<open>total_time\<close> are \<^verbatim>\<open>int\<close>s, whose width depends on
  the board: 16 bits on the ATmega boards (Uno, Nano, Mega), 32 bits on the ARM ones.
  The width is the parameter \<open>bits\<close>; \<open>wrap_int bits\<close> is the two's complement value
  that a sum has once stored back in such an \<^verbatim>\<open>int\<close> (signed overflow is undefined
  in C; avr-gcc wraps, and whatever is stored is a value of that width). The literal
  50000 does not fit 16 bits, so there it is a \<^verbatim>\<open>long\<close> and \<^verbatim>\<open>total_time\<close> is widened
  for the comparison: in both cases the comparison is the one of the mathematical values.
\<close>

definition wrap_int :: "nat \<Rightarrow> int \<Rightarrow> int" where
  "wrap_int bits x = (x + 2 ^ (bits - 1)) mod 2 ^ bits - 2 ^ (bits - 1)"

partial_function (option) spacer_loop :: "nat \<Rightarrow> env \<Rightarrow> int \<Rightarrow> int \<Rightarrow> world \<Rightarrow> world option" where
  "spacer_loop bits env time total_time w =
     (if time < 3000 \<and> total_time < 50000 then
        (case digitalRead env w of (lvl, w1) \<Rightarrow>
           spacer_loop bits env
             (if lvl = LOW then wrap_int bits (time + 10) else 0)
             (wrap_int bits (total_time + 10))
             (emit (Delay_us 10) w1))
      else Some w)"

declare spacer_loop.simps [code]

definition findNextSpacer :: "nat \<Rightarrow> env \<Rightarrow> world \<Rightarrow> world option" where
  "findNextSpacer bits env w = spacer_loop bits env 0 0 (w\<lparr>spacer_calls := Suc (spacer_calls w)\<rparr>)"

subsection \<open>readNextCode\<close>

definition emits :: "event list \<Rightarrow> world \<Rightarrow> world" where
  "emits es w = fold emit es w"

text \<open>The terminator \<^verbatim>\<open>'\0'\<close>.\<close>

definition NUL :: char where
  "NUL = CHR 0x00"

text \<open>
  \<^verbatim>\<open>buf[i] = c\<close> on an array of \<open>length buf\<close> elements. A store past the end is
  undefined behaviour in C: the model drops it and sets \<open>oob\<close>.
\<close>

definition store :: "nat \<Rightarrow> char \<Rightarrow> char list \<Rightarrow> world \<Rightarrow> char list \<times> world" where
  "store i c buf w = (if i < length buf then (buf[i := c], w) else (buf, w\<lparr>oob := True\<rparr>))"

text \<open>
  The \<^verbatim>\<open>for\<close> loop of \<^verbatim>\<open>readNextCode\<close> from position \<open>i\<close> on, and what follows
  it. The result is the returned \<^verbatim>\<open>int\<close>, the buffer and the world; \<open>None\<close> when a
  call of \<^verbatim>\<open>findNextSpacer\<close> does not return.
\<close>

function readNextCode_from ::
  "nat \<Rightarrow> env \<Rightarrow> nat \<Rightarrow> char list \<Rightarrow> world \<Rightarrow> (nat \<times> char list \<times> world) option" where
  "readNextCode_from bits env i buf w =
     (if i < 12 then
        (case pulseIn env w of (first, w) \<Rightarrow>
           if first = 0 \<or> first < word_of_int short_min then
             (if i \<ge> 1 then
                do {
                  w \<leftarrow> findNextSpacer bits env
                    (emits [Print ''DEBUG: '', Print_num i, Print '': '',
                            Println_num (unat first), Println ''FAIL (first pulse)''] w);
                  Some (0, buf, w)
                }
              else Some (0, buf, w))
           else
             (case pulseIn env w of (second, w) \<Rightarrow>
                if second = 0 \<or> second < word_of_int short_min then
                  (if i \<ge> 1 then
                     do {
                       w \<leftarrow> findNextSpacer bits env
                         (emits [Print ''DEBUG: '', Print_num i, Print '': '',
                                 Print_num (unat second), Println ''FAIL (second pulse)''] w);
                       Some (0, buf, w)
                     }
                   else Some (0, buf, w))
                else if first > word_of_int long_min \<and> second > word_of_int long_min then
                  (case store i CHR ''1'' buf w of (buf, w) \<Rightarrow>
                     readNextCode_from bits env (i + 1) buf w)
                else if second > word_of_int long_min then
                  (case store i CHR ''F'' buf w of (buf, w) \<Rightarrow>
                     readNextCode_from bits env (i + 1) buf w)
                else if first < word_of_int long_min \<and> second < word_of_int long_min then
                  (case store i CHR ''0'' buf w of (buf, w) \<Rightarrow>
                     readNextCode_from bits env (i + 1) buf w)
                else
                  (case store i CHR ''X'' buf w of (buf, w) \<Rightarrow>
                   case store (i + 1) NUL buf w of (buf, w) \<Rightarrow>
                     do {
                       w \<leftarrow> findNextSpacer bits env w;
                       Some (0, buf, w)
                     })))
      else
        (case store 12 NUL buf (emit (Delay_us 5000) w) of (buf, w) \<Rightarrow> Some (1, buf, w)))"
  by pat_completeness auto
termination
  by (relation "measure (\<lambda>(bits, env, i, buf, w). 12 - i)") auto

definition readNextCode :: "nat \<Rightarrow> env \<Rightarrow> char list \<Rightarrow> world \<Rightarrow> (nat \<times> char list \<times> world) option" where
  "readNextCode bits env buf w =
     readNextCode_from bits env 0 buf (w\<lparr>reader_calls := Suc (reader_calls w)\<rparr>)"

subsection \<open>loop\<close>

text \<open>
  The arrays \<^verbatim>\<open>codes[resend_count][13]\<close> and \<^verbatim>\<open>valid[resend_count]\<close> are locals
  without initialiser: their first contents are arguments of the model (lists of
  \<open>resend_count\<close> elements, the rows of 13 characters). The reading loop
  (lines 175 to 184), from repetition \<open>i\<close> on; its result is \<^verbatim>\<open>num_success\<close> and the
  two arrays.
\<close>

function read_codes_from ::
  "nat \<Rightarrow> env \<Rightarrow> nat \<Rightarrow> nat \<Rightarrow> char list list \<Rightarrow> nat list \<Rightarrow> world
     \<Rightarrow> (nat \<times> char list list \<times> nat list \<times> world) option" where
  "read_codes_from bits env i num_success codes valid w =
     (if i < resend_count then
        (case readNextCode bits env (codes ! i) w of
           None \<Rightarrow> None
         | Some (res, buf, w) \<Rightarrow>
             if num_success + res = 0
             then Some (num_success + res, codes[i := buf], valid[i := res], w)
             else read_codes_from bits env (i + 1) (num_success + res)
                    (codes[i := buf]) (valid[i := res]) w)
      else Some (num_success, codes, valid, w))"
  by pat_completeness auto
termination
  by (relation "measure (\<lambda>(bits, env, i, num_success, codes, valid, w). resend_count - i)") auto

definition read_codes ::
  "nat \<Rightarrow> env \<Rightarrow> char list list \<Rightarrow> nat list \<Rightarrow> world
     \<Rightarrow> (nat \<times> char list list \<times> nat list \<times> world) option" where
  "read_codes bits env codes valid w = read_codes_from bits env 0 0 codes valid w"

text \<open>\<^verbatim>\<open>unsigned char majority[12][3]\<close>, zeroed (lines 168 to 172).\<close>

definition zero_majority :: "8 word list list" where
  "zero_majority = replicate 12 (replicate 3 0)"

text \<open>\<^verbatim>\<open>majority[j][k]++\<close>\<close>

definition bump :: "nat \<Rightarrow> nat \<Rightarrow> 8 word list list \<Rightarrow> 8 word list list" where
  "bump j k majority = majority[j := (majority ! j)[k := majority ! j ! k + 1]]"

text \<open>Lines 201 to 205: one reading is added to the counts, column by column.\<close>

definition add_columns :: "char list \<Rightarrow> 8 word list list \<Rightarrow> 8 word list list" where
  "add_columns code majority =
     fold (\<lambda>j m.
        if code ! j = CHR ''0'' then bump j 0 m
        else if code ! j = CHR ''1'' then bump j 1 m
        else if code ! j = CHR ''F'' then bump j 2 m
        else m) [0..<12] majority"

text \<open>What \<^verbatim>\<open>Serial.println\<close> prints of a \<^verbatim>\<open>char\<close> array: the characters before the terminator.\<close>

definition c_str :: "char list \<Rightarrow> string" where
  "c_str buf = takeWhile (\<lambda>c. c \<noteq> NUL) buf"

text \<open>Lines 192 to 206: every reading is printed, and the valid ones are counted.\<close>

definition count_codes ::
  "char list list \<Rightarrow> nat list \<Rightarrow> 8 word list list \<times> world \<Rightarrow> 8 word list list \<times> world" where
  "count_codes codes valid =
     fold (\<lambda>i (majority, w).
        if valid ! i = 0 then (majority, emit (Println ''DEBUG: <<Invalid>>'') w)
        else (add_columns (codes ! i) majority,
              emits [Print ''DEBUG: '', Println (c_str (codes ! i))] w)) [0..<resend_count]"

text \<open>Lines 212 to 218: the choice for one position, from its three counts.\<close>

definition pick :: "8 word list \<Rightarrow> char" where
  "pick m =
     (if m ! 0 > m ! 1 \<and> m ! 0 > m ! 2 then CHR ''0''
      else if m ! 1 > m ! 2 then CHR ''1''
      else CHR ''F'')"

text \<open>Lines 211 to 220: \<^verbatim>\<open>result[13]\<close>, every element of which is written.\<close>

definition majority_result :: "8 word list list \<Rightarrow> char list" where
  "majority_result majority = map (\<lambda>i. pick (majority ! i)) [0..<12] @ [NUL]"

definition loop :: "nat \<Rightarrow> env \<Rightarrow> char list list \<Rightarrow> nat list \<Rightarrow> world \<Rightarrow> world option" where
  "loop bits env codes valid w =
     (case read_codes bits env codes valid w of
        None \<Rightarrow> None
      | Some (num_success, codes, valid, w) \<Rightarrow>
          if num_success > 3 then
            (case count_codes codes valid (zero_majority, emit (Println ''DEBUG: ####'') w) of
               (majority, w) \<Rightarrow>
                 Some (emit (Delay_ms 1250)
                   (emits [Println (c_str (majority_result majority)),
                           Println ''DEBUG: ####''] w)))
          else Some w)"

subsection \<open>Auxiliary definitions for the proofs\<close>

text \<open>\<open>k\<close> rounds of the polling loop of \<^verbatim>\<open>findNextSpacer\<close>: \<open>k\<close> samples, \<open>k\<close> delays.\<close>

definition advance :: "nat \<Rightarrow> world \<Rightarrow> world" where
  "advance k w = w\<lparr>sample_idx := sample_idx w + k, trace := trace w @ replicate k (Delay_us 10)\<rparr>"

text \<open>
  \<^verbatim>\<open>readNextCode\<close> up to the point where it returns or enters \<^verbatim>\<open>findNextSpacer\<close>:
  the same loop, with a flag in place of each call of \<^verbatim>\<open>findNextSpacer\<close>. Every such
  call is directly followed by \<^verbatim>\<open>return 0\<close>, so nothing of the reader runs after it
  (lemma \<open>readNextCode_from_scan\<close>). This function is total.
\<close>

function scan_from :: "env \<Rightarrow> nat \<Rightarrow> char list \<Rightarrow> world \<Rightarrow> nat \<times> bool \<times> char list \<times> world" where
  "scan_from env i buf w =
     (if i < 12 then
        (case pulseIn env w of (first, w) \<Rightarrow>
           if first = 0 \<or> first < word_of_int short_min then
             (if i \<ge> 1 then
                (0, True, buf,
                 emits [Print ''DEBUG: '', Print_num i, Print '': '',
                        Println_num (unat first), Println ''FAIL (first pulse)''] w)
              else (0, False, buf, w))
           else
             (case pulseIn env w of (second, w) \<Rightarrow>
                if second = 0 \<or> second < word_of_int short_min then
                  (if i \<ge> 1 then
                     (0, True, buf,
                      emits [Print ''DEBUG: '', Print_num i, Print '': '',
                             Print_num (unat second), Println ''FAIL (second pulse)''] w)
                   else (0, False, buf, w))
                else if first > word_of_int long_min \<and> second > word_of_int long_min then
                  (case store i CHR ''1'' buf w of (buf, w) \<Rightarrow> scan_from env (i + 1) buf w)
                else if second > word_of_int long_min then
                  (case store i CHR ''F'' buf w of (buf, w) \<Rightarrow> scan_from env (i + 1) buf w)
                else if first < word_of_int long_min \<and> second < word_of_int long_min then
                  (case store i CHR ''0'' buf w of (buf, w) \<Rightarrow> scan_from env (i + 1) buf w)
                else
                  (case store i CHR ''X'' buf w of (buf, w) \<Rightarrow>
                   case store (i + 1) NUL buf w of (buf, w) \<Rightarrow> (0, True, buf, w))))
      else
        (case store 12 NUL buf (emit (Delay_us 5000) w) of (buf, w) \<Rightarrow> (1, False, buf, w)))"
  by pat_completeness auto
termination
  by (relation "measure (\<lambda>(env, i, buf, w). 12 - i)") auto

text \<open>The symbol at position \<open>j\<close> of a reading whose first pulse is the \<open>p\<close>-th.\<close>

definition symbol_at :: "env \<Rightarrow> nat \<Rightarrow> nat \<Rightarrow> symbol" where
  "symbol_at env p j = decode (pulses env (p + 2 * j)) (pulses env (p + 2 * j + 1))"

text \<open>
  How many valid readings have the character \<open>c\<close> at position \<open>p\<close>: the tally of the
  specification (section 3), counted directly.
\<close>

definition votes :: "char list list \<Rightarrow> nat list \<Rightarrow> nat \<Rightarrow> char \<Rightarrow> nat" where
  "votes codes valid p c =
     length (filter (\<lambda>i. valid ! i \<noteq> 0 \<and> codes ! i ! p = c) [0..<resend_count])"

text \<open>The counts have twelve rows of three entries.\<close>

definition shape :: "8 word list list \<Rightarrow> bool" where
  "shape m \<longleftrightarrow> length m = 12 \<and> (\<forall>p<12. length (m ! p) = 3)"

text \<open>The bodies of the two counting loops, named.\<close>

definition column_step :: "char list \<Rightarrow> nat \<Rightarrow> 8 word list list \<Rightarrow> 8 word list list" where
  "column_step code = (\<lambda>j m.
        if code ! j = CHR ''0'' then bump j 0 m
        else if code ! j = CHR ''1'' then bump j 1 m
        else if code ! j = CHR ''F'' then bump j 2 m
        else m)"

definition code_step ::
  "char list list \<Rightarrow> nat list \<Rightarrow> nat \<Rightarrow> 8 word list list \<times> world \<Rightarrow> 8 word list list \<times> world" where
  "code_step codes valid = (\<lambda>i (majority, w).
        if valid ! i = 0 then (majority, emit (Println ''DEBUG: <<Invalid>>'') w)
        else (add_columns (codes ! i) majority,
              emits [Print ''DEBUG: '', Println (c_str (codes ! i))] w))"

text \<open>What the loop of lines 192 to 206 prints for the first \<open>n\<close> readings.\<close>

definition report_lines :: "char list list \<Rightarrow> nat list \<Rightarrow> nat \<Rightarrow> event list" where
  "report_lines codes valid n =
     concat (map (\<lambda>i. if valid ! i = 0 then [Println ''DEBUG: <<Invalid>>'']
                       else [Print ''DEBUG: '', Println (c_str (codes ! i))]) [0..<n])"

subsection \<open>Concrete inputs\<close>

definition idle_world :: world where
  "idle_world = \<lparr>pulse_idx = 0, sample_idx = 0, trace = [], spacer_calls = 0,
                  reader_calls = 0, oob = False\<rparr>"

definition blank_buf :: "char list" where
  "blank_buf = replicate 13 CHR ''?''"

text \<open>A line that is never low, and no pulse at all.\<close>

definition stuck_high :: env where
  "stuck_high = \<lparr>pulses = (\<lambda>k. 0), line = (\<lambda>k. HIGH)\<rparr>"

text \<open>
  Five valid readings whose first symbols are 1, 1, F, F, 0 (the second example of
  section 8 of the specification), and twelve invalid ones.
\<close>

definition tie_codes :: "char list list" where
  "tie_codes =
     [''111111111111'' @ [NUL], ''111111111111'' @ [NUL], ''FFFFFFFFFFFF'' @ [NUL],
      ''FFFFFFFFFFFF'' @ [NUL], ''000000000000'' @ [NUL]] @ replicate 12 blank_buf"

definition tie_valid :: "nat list" where
  "tie_valid = [1, 1, 1, 1, 1] @ replicate 12 0"

text \<open>Five valid readings whose first symbols are 0, 0, 0, 1, F.\<close>

definition clear_codes :: "char list list" where
  "clear_codes =
     [''000000000000'' @ [NUL], ''000000000000'' @ [NUL], ''000000000000'' @ [NUL],
      ''111111111111'' @ [NUL], ''FFFFFFFFFFFF'' @ [NUL]] @ replicate 12 blank_buf"

text \<open>Pulse trains for the reader: durations in microseconds, by call of \<^verbatim>\<open>pulseIn\<close>.\<close>

definition malformed_first :: env where
  "malformed_first = \<lparr>pulses = (\<lambda>k. if k = 0 then 1500 else 500), line = (\<lambda>k. LOW)\<rparr>"

definition late_failure :: env where
  "late_failure = \<lparr>pulses = (\<lambda>k. if k < 2 then 500 else 0), line = (\<lambda>k. LOW)\<rparr>"

definition malformed_last :: env where
  "malformed_last = \<lparr>pulses = (\<lambda>k. if k = 22 then 1500 else 500), line = (\<lambda>k. LOW)\<rparr>"

definition all_float :: env where
  "all_float = \<lparr>pulses = (\<lambda>k. if even k then 500 else 1500), line = (\<lambda>k. LOW)\<rparr>"

text \<open>
  Cycles of three and of four good repetitions followed by silence, and the arrays of
  \<^verbatim>\<open>loop\<close> before anything is stored in them.
\<close>

definition three_codes :: env where
  "three_codes = \<lparr>pulses = (\<lambda>k. if k < 72 then 500 else 0), line = (\<lambda>k. LOW)\<rparr>"

definition four_codes :: env where
  "four_codes = \<lparr>pulses = (\<lambda>k. if k < 96 then 500 else 0), line = (\<lambda>k. LOW)\<rparr>"

text \<open>
  One good repetition (twelve 0 symbols), then a long pulse followed by a short one, on
  a line that reads high at every sample.
\<close>

definition burst_then_stuck :: env where
  "burst_then_stuck = \<lparr>pulses = (\<lambda>k. if k = 24 then 1500 else 500), line = (\<lambda>k. HIGH)\<rparr>"

definition start_codes :: "char list list" where
  "start_codes = replicate 17 blank_buf"

definition start_valid :: "nat list" where
  "start_valid = replicate 17 7"

section \<open>Properties\<close>

declare readNextCode_from.simps [simp del] scan_from.simps [simp del] read_codes_from.simps [simp del]

subsection \<open>Classification and decoding\<close>

lemma short_min_word: "(word_of_int short_min :: duration) = 350"
  by (simp add: short_min_def)

lemma long_min_word: "(word_of_int long_min :: duration) = 1200"
  by (simp add: long_min_def)

lemma less_short_min: "(d :: duration) < 350 \<longleftrightarrow> uint d < 350"
  by (simp add: word_less_def)

lemma less_long_min: "(d :: duration) < 1200 \<longleftrightarrow> uint d < 1200"
  by (simp add: word_less_def)

lemma greater_long_min: "(1200 :: duration) < d \<longleftrightarrow> 1200 < uint d"
  by (simp add: word_less_def)

text \<open>
  What the reader's tests make of every duration: NONE iff it is 0 or below
  \<open>short_min\<close>, LONG iff it is strictly above \<open>long_min\<close>, SHORT iff it is at least
  \<open>short_min\<close> and strictly below \<open>long_min\<close>, and no class at all iff it is exactly
  \<open>long_min\<close>.
\<close>

lemma classify_strict:
  "(classify d = Some NONE \<longleftrightarrow> d = 0 \<or> uint d < short_min) \<and>
   (classify d = Some LONG \<longleftrightarrow> uint d > long_min) \<and>
   (classify d = Some SHORT \<longleftrightarrow> short_min \<le> uint d \<and> uint d < long_min) \<and>
   (classify d = None \<longleftrightarrow> uint d = long_min)"
  unfolding classify_def no_pulse_def long_pulse_def short_pulse_def short_min_word long_min_word
    less_short_min less_long_min greater_long_min
  by (auto simp: short_min_def long_min_def)

text \<open>
  Claim C3, at the input where the sketch breaks it: \<open>d = long_min = 1200\<close>. The claim
  (and the comment of line 49, which calls \<open>long_min\<close> the minimum duration of a long
  pulse) makes it LONG. The tests of lines 130 to 134 are \<^verbatim>\<open>>\<close> and \<^verbatim>\<open><\<close>, so the
  duration gets no class, and two such pulses fall into the last \<^verbatim>\<open>else\<close> and are
  rejected, although the comment of that branch says it is reached by a long pulse
  followed by a short one.
\<close>

theorem classify_at_long_min:
  "classify 1200 = None \<and> spec_classify 1200 = LONG \<and> decode 1200 1200 = INVALID"
  by (simp add: classify_def spec_classify_def decode_def no_pulse_def long_pulse_def
      short_pulse_def short_min_def long_min_def)

text \<open>
  The decoding of a pair by the classes of the reader's tests. Away from \<open>long_min\<close> it
  is the table of the specification; the last two lines are the pairs with a pulse of
  exactly \<open>long_min\<close>.
\<close>

lemma decode_table:
  "(classify first = Some NONE \<or> classify second = Some NONE \<longrightarrow> decode first second = INVALID) \<and>
   (classify first = Some LONG \<and> classify second = Some LONG \<longrightarrow> decode first second = ONE) \<and>
   (classify first \<noteq> Some NONE \<and> classify first \<noteq> Some LONG \<and> classify second = Some LONG
      \<longrightarrow> decode first second = FLOAT) \<and>
   (classify first = Some SHORT \<and> classify second = Some SHORT \<longrightarrow> decode first second = ZERO) \<and>
   (classify first = Some LONG \<and> classify second = Some SHORT \<longrightarrow> decode first second = INVALID) \<and>
   (classify second = None \<longrightarrow> decode first second = INVALID) \<and>
   (classify first = None \<and> classify second = Some SHORT \<longrightarrow> decode first second = INVALID)"
  unfolding classify_def no_pulse_def long_pulse_def short_pulse_def decode_def
  by (auto split: if_splits)

lemma decode_table_examples:
  "decode 0 1500 = INVALID \<and> decode 1500 1500 = ONE \<and> decode 500 1500 = FLOAT \<and>
   decode 500 500 = ZERO \<and> decode 1500 500 = INVALID \<and> decode 500 1200 = INVALID \<and>
   decode 1200 500 = INVALID"
  using decode_table [of 0 1500] decode_table [of 1500 1500] decode_table [of 500 1500]
    decode_table [of 500 500] decode_table [of 1500 500] decode_table [of 500 1200]
    decode_table [of 1200 500]
  by (simp add: classify_def no_pulse_def long_pulse_def short_pulse_def short_min_def long_min_def)

text \<open>
  Claim C4, at the inputs where the sketch breaks it: a pulse of exactly \<open>long_min\<close>.
  The pair (500, 1200) is a short pulse followed by a long one, for which the claim gives
  F; the sketch takes the last \<^verbatim>\<open>else\<close>, whose comment says it is reached by a long pulse
  followed by a short one, and rejects the pair. The pair (1200, 1500) is two long
  pulses, for which the claim gives ONE; the sketch stores F.
\<close>

theorem decode_at_long_min:
  "classify 500 = Some SHORT \<and> spec_classify 500 = SHORT \<and> spec_classify 1200 = LONG \<and>
   classify 1200 = None \<and> decode 500 1200 = INVALID \<and>
   spec_classify 1500 = LONG \<and> decode 1200 1500 = FLOAT"
  by (simp add: classify_def spec_classify_def decode_def no_pulse_def long_pulse_def
      short_pulse_def short_min_def long_min_def)

text \<open>
  Claim C5, as amended. With \<open>short_min = 350\<close> and \<open>long_min = 1200\<close>:
  \<open>decode (1500, 1500) = ONE\<close>, \<open>decode (1500, 200) = INVALID\<close> and
  \<open>decode (0, x) = INVALID\<close> for every \<open>x\<close>; a pulse of 200 is below \<open>short_min\<close>, so
  \<open>decode (200, 1500)\<close> and \<open>decode (200, 200)\<close> are INVALID; with a short pulse of 500,
  \<open>decode (500, 1500) = F\<close> and \<open>decode (500, 500) = ZERO\<close>.
\<close>

theorem decode_defaults:
  "decode 1500 1500 = ONE \<and> decode 200 1500 = INVALID \<and> decode 200 200 = INVALID \<and>
   decode 1500 200 = INVALID \<and> (\<forall>x. decode 0 x = INVALID) \<and>
   decode 500 1500 = FLOAT \<and> decode 500 500 = ZERO"
  by (simp add: decode_def short_min_def long_min_def)

text \<open>Claim C5 as stated fails: a first pulse of 200 is rejected by the test of line 95.\<close>

theorem decode_200_counterexample: "decode 200 1500 \<noteq> FLOAT \<and> decode 200 200 \<noteq> ZERO"
  by (simp add: decode_def short_min_def long_min_def)

subsection \<open>The majority vote\<close>

lemma shape_zero: "shape zero_majority"
  by (simp add: shape_def zero_majority_def)

lemma zero_majority_nth: "p < 12 \<Longrightarrow> q < 3 \<Longrightarrow> zero_majority ! p ! q = 0"
  by (simp add: zero_majority_def)

lemma shape_bump: "shape m \<Longrightarrow> shape (bump j k m)"
  by (cases "j < 12") (auto simp: shape_def bump_def nth_list_update)

lemma bump_nth:
  "shape m \<Longrightarrow> j < 12 \<Longrightarrow> k < 3 \<Longrightarrow> p < 12 \<Longrightarrow> q < 3 \<Longrightarrow>
     bump j k m ! p ! q = m ! p ! q + (if p = j \<and> q = k then 1 else 0)"
  by (auto simp: shape_def bump_def nth_list_update)

lemma shape_column_step: "shape m \<Longrightarrow> shape (column_step code j m)"
  by (simp add: column_step_def shape_bump)

lemma column_step_nth:
  "shape m \<Longrightarrow> j < 12 \<Longrightarrow> p < 12 \<Longrightarrow> q < 3 \<Longrightarrow>
     column_step code j m ! p ! q = m ! p ! q + (if p = j \<and> code ! j = ''01F'' ! q then 1 else 0)"
  by (cases "q = 0"; cases "q = 1"; cases "q = 2") (auto simp: column_step_def bump_nth)

lemma columns_upto:
  "n \<le> 12 \<Longrightarrow> shape m \<Longrightarrow>
     shape (fold (column_step code) [0..<n] m) \<and>
     (\<forall>p<12. \<forall>q<3. fold (column_step code) [0..<n] m ! p ! q =
        m ! p ! q + (if p < n \<and> code ! p = ''01F'' ! q then 1 else 0))"
proof (induction n)
  case 0
  then show ?case by simp
next
  case (Suc n)
  then have IH: "shape (fold (column_step code) [0..<n] m)"
    "\<forall>p<12. \<forall>q<3. fold (column_step code) [0..<n] m ! p ! q =
        m ! p ! q + (if p < n \<and> code ! p = ''01F'' ! q then 1 else 0)"
    by simp_all
  have n: "n < 12" using Suc.prems by simp
  show ?case
    using n by (auto simp: shape_column_step IH(1) column_step_nth[OF IH(1) n] IH(2) less_Suc_eq)
qed

lemma add_columns_nth:
  assumes "shape m" "p < 12" "q < 3"
  shows "add_columns code m ! p ! q = m ! p ! q + (if code ! p = ''01F'' ! q then 1 else 0)"
  using columns_upto[of 12 m code] assms
  by (simp add: add_columns_def column_step_def[symmetric, abs_def])

lemma shape_add_columns: "shape m \<Longrightarrow> shape (add_columns code m)"
  using columns_upto[of 12 m code]
  by (simp add: add_columns_def column_step_def[symmetric, abs_def])


lemma code_step_apply:
  "code_step codes valid i (m, w) =
     (if valid ! i = 0 then (m, emit (Println ''DEBUG: <<Invalid>>'') w)
      else (add_columns (codes ! i) m, emits [Print ''DEBUG: '', Println (c_str (codes ! i))] w))"
  by (simp add: code_step_def)

lemma emits_trace: "emits es w = w\<lparr>trace := trace w @ es\<rparr>"
  unfolding emits_def
  by (induction es arbitrary: w) (simp_all add: emit_def)

lemma codes_upto:
  "shape m \<Longrightarrow>
     shape (fst (fold (code_step codes valid) [0..<n] (m, w))) \<and>
     (\<forall>p<12. \<forall>q<3. fst (fold (code_step codes valid) [0..<n] (m, w)) ! p ! q =
        m ! p ! q + of_nat (length (filter (\<lambda>i. valid ! i \<noteq> 0 \<and> codes ! i ! p = ''01F'' ! q) [0..<n]))) \<and>
     snd (fold (code_step codes valid) [0..<n] (m, w)) = w\<lparr>trace := trace w @ report_lines codes valid n\<rparr>"
proof (induction n)
  case 0
  then show ?case by (simp add: report_lines_def)
next
  case (Suc n)
  obtain m' w' where f: "fold (code_step codes valid) [0..<n] (m, w) = (m', w')"
    by (cases "fold (code_step codes valid) [0..<n] (m, w)")
  from Suc f have IH: "shape m'"
    "\<forall>p<12. \<forall>q<3. m' ! p ! q =
        m ! p ! q + of_nat (length (filter (\<lambda>i. valid ! i \<noteq> 0 \<and> codes ! i ! p = ''01F'' ! q) [0..<n]))"
    "w' = w\<lparr>trace := trace w @ report_lines codes valid n\<rparr>"
    by simp_all
  show ?case
  proof (cases "valid ! n = 0")
    case True
    then show ?thesis
      using IH by (simp add: f code_step_apply emit_def report_lines_def)
  next
    case False
    then show ?thesis
      using IH by (simp add: f code_step_apply emits_trace report_lines_def add_columns_nth shape_add_columns)
  qed
qed

lemma count_codes_eq:
  assumes "shape m"
  shows "shape (fst (count_codes codes valid (m, w)))"
    and "\<And>p q. p < 12 \<Longrightarrow> q < 3 \<Longrightarrow> fst (count_codes codes valid (m, w)) ! p ! q =
        m ! p ! q + of_nat (votes codes valid p (''01F'' ! q))"
    and "snd (count_codes codes valid (m, w)) = w\<lparr>trace := trace w @ report_lines codes valid resend_count\<rparr>"
  using codes_upto[OF assms, of codes valid resend_count w]
  by (simp_all add: count_codes_def code_step_def[symmetric, abs_def] votes_def)

lemma votes_le: "votes codes valid p c \<le> 17"
proof -
  have "votes codes valid p c \<le> length [0..<resend_count]"
    unfolding votes_def by (rule length_filter_le)
  then show ?thesis by (simp add: resend_count_def)
qed

lemma count_less:
  assumes "a \<le> 17" "b \<le> 17"
  shows "((of_nat a :: 8 word) < of_nat b) \<longleftrightarrow> a < b"
proof -
  have "unat (of_nat a :: 8 word) = a" "unat (of_nat b :: 8 word) = b"
    using assms by (simp_all add: unat_of_nat)
  then show ?thesis by (simp add: word_less_nat_alt)
qed

lemma majority_result_nth: "p < 12 \<Longrightarrow> majority_result m ! p = pick (m ! p)"
  by (simp add: majority_result_def nth_append)

lemma majority_by_votes:
  assumes "p < 12"
  shows "majority_result (fst (count_codes codes valid (zero_majority, w))) ! p =
     (if votes codes valid p CHR ''0'' > votes codes valid p CHR ''1'' \<and>
         votes codes valid p CHR ''0'' > votes codes valid p CHR ''F'' then CHR ''0''
      else if votes codes valid p CHR ''1'' > votes codes valid p CHR ''F'' then CHR ''1''
      else CHR ''F'')"
proof -
  let ?m = "fst (count_codes codes valid (zero_majority, w))"
  have c: "?m ! p ! 0 = of_nat (votes codes valid p CHR ''0'')"
    "?m ! p ! 1 = of_nat (votes codes valid p CHR ''1'')"
    "?m ! p ! 2 = of_nat (votes codes valid p CHR ''F'')"
    using count_codes_eq(2)[OF shape_zero assms, of 0 codes valid w]
      count_codes_eq(2)[OF shape_zero assms, of 1 codes valid w]
      count_codes_eq(2)[OF shape_zero assms, of 2 codes valid w] assms
    by (simp_all add: zero_majority_nth)
  show ?thesis
    unfolding majority_result_nth[OF assms] pick_def c
    by (simp add: count_less votes_le)
qed

lemma votes_clear:
  "votes clear_codes tie_valid 0 CHR ''0'' = 3"
  "votes clear_codes tie_valid 0 CHR ''1'' = 1"
  "votes clear_codes tie_valid 0 CHR ''F'' = 1"
  by code_simp+

lemma votes_tie:
  "votes tie_codes tie_valid 0 CHR ''0'' = 1"
  "votes tie_codes tie_valid 0 CHR ''1'' = 2"
  "votes tie_codes tie_valid 0 CHR ''F'' = 2"
  by code_simp+

text \<open>
  Claim C1, as amended. At every position \<open>p < 12\<close>, with \<open>c0\<close>, \<open>c1\<close>, \<open>c2\<close> the
  numbers of valid readings that have 0, 1, F there, the vote gives 0 iff \<open>c0 > c1\<close> and
  \<open>c0 > c2\<close>; otherwise 1 iff \<open>c1 > c2\<close>; otherwise F. Counts (3, 1, 1) give 0, counts
  (1, 2, 2) give F (a tie between 1 and F goes to F), counts (1, 1, 2) give F.
\<close>

theorem majority_vote_rule:
  "(p < 12 \<longrightarrow>
      majority_result (fst (count_codes codes valid (zero_majority, w))) ! p =
        (if votes codes valid p CHR ''0'' > votes codes valid p CHR ''1'' \<and>
            votes codes valid p CHR ''0'' > votes codes valid p CHR ''F'' then CHR ''0''
         else if votes codes valid p CHR ''1'' > votes codes valid p CHR ''F'' then CHR ''1''
         else CHR ''F'')) \<and>
   pick [3, 1, 1] = CHR ''0'' \<and> pick [1, 2, 2] = CHR ''F'' \<and> pick [1, 1, 2] = CHR ''F''"
  using majority_by_votes [of p codes valid w] by (simp add: pick_def)

theorem majority_vote_rule_witness:
  "votes clear_codes tie_valid 0 CHR ''0'' = 3 \<and> votes clear_codes tie_valid 0 CHR ''1'' = 1 \<and>
   votes clear_codes tie_valid 0 CHR ''F'' = 1 \<and>
   majority_result (fst (count_codes clear_codes tie_valid (zero_majority, idle_world))) ! 0 = CHR ''0''"
  using majority_vote_rule [of 0 clear_codes tie_valid idle_world]
  by (simp add: votes_clear)

text \<open>
  Claim C1 as stated fails on counts (1, 2, 2): of five valid readings that start with
  1, 1, F, F, 0 the vote makes F, not 1.
\<close>

theorem majority_tie_counterexample:
  "votes tie_codes tie_valid 0 CHR ''0'' = 1 \<and> votes tie_codes tie_valid 0 CHR ''1'' = 2 \<and>
   votes tie_codes tie_valid 0 CHR ''F'' = 2 \<and>
   majority_result (fst (count_codes tie_codes tie_valid (zero_majority, idle_world))) ! 0 = CHR ''F''"
  using majority_by_votes [of 0 tie_codes tie_valid idle_world]
  by (simp add: votes_tie)

subsection \<open>findNextSpacer\<close>

lemma advance_0: "advance 0 w = w"
  by (simp add: advance_def)

lemma advance_step:
  "advance k (emit (Delay_us 10) (snd (digitalRead env w))) = advance (Suc k) w"
  by (simp add: advance_def emit_def digitalRead_def replicate_app_Cons_same)

lemma wrap_int_id:
  assumes "0 < bits" and "- (2 ^ (bits - 1)) \<le> x" and "x < 2 ^ (bits - 1)"
  shows "wrap_int bits x = x"
proof -
  have p: "(2::int) ^ bits = 2 * 2 ^ (bits - 1)"
    using assms(1) by (cases bits) simp_all
  have "(x + 2 ^ (bits - 1)) mod 2 ^ bits = x + 2 ^ (bits - 1)"
    using assms(2,3) p by (intro mod_pos_pos_trivial) linarith+
  then show ?thesis by (simp add: wrap_int_def)
qed

lemma wide_int: 
  assumes "17 \<le> bits" shows "(65536::int) \<le> 2 ^ (bits - 1)"
proof -
  have "(2::int) ^ 16 \<le> 2 ^ (bits - 1)"
    using assms by (intro power_increasing) simp_all
  then show ?thesis by simp
qed

lemma spacer_loop_returns:
  assumes wide: "17 \<le> bits"
  shows "0 \<le> time \<Longrightarrow> 0 \<le> tt \<Longrightarrow>
     \<exists>k. spacer_loop bits env time tt w = Some (advance k w) \<and> int k * 10 \<le> max 0 (50009 - tt)"
proof (induction "nat (50000 - tt)" arbitrary: time tt w rule: less_induct)
  case less
  show ?case
  proof (cases "time < 3000 \<and> tt < 50000")
    case False
    then have "spacer_loop bits env time tt w = Some (advance 0 w)"
      by (subst spacer_loop.simps) (auto simp: advance_0)
    then show ?thesis by (intro exI[of _ 0]) simp
  next
    case True
    obtain lvl w1 where dr: "digitalRead env w = (lvl, w1)" by (cases "digitalRead env w")
    define time' where "time' = (if lvl = LOW then wrap_int bits (time + 10) else 0)"
    define tt' where "tt' = wrap_int bits (tt + 10)"
    have b: "0 < bits" using wide by simp
    have big: "(65536::int) \<le> 2 ^ (bits - 1)" by (rule wide_int[OF wide])
    have t1: "wrap_int bits (time + 10) = time + 10"
      using less.prems True big by (intro wrap_int_id[OF b]) linarith+
    have t2: "tt' = tt + 10"
      unfolding tt'_def using less.prems True big by (intro wrap_int_id[OF b]) linarith+
    have r1: "0 \<le> time'"
      using less.prems True t1 by (auto simp: time'_def)
    have r2: "0 \<le> tt'" using less.prems t2 by simp
    have m: "nat (50000 - tt') < nat (50000 - tt)" using True t2 by simp
    from less.hyps[OF m r1 r2, of "emit (Delay_us 10) w1"]
    obtain k where k: "spacer_loop bits env time' tt' (emit (Delay_us 10) w1)
        = Some (advance k (emit (Delay_us 10) w1))" "int k * 10 \<le> max 0 (50009 - tt')"
      by blast
    have w1: "w1 = snd (digitalRead env w)" using dr by simp
    have "spacer_loop bits env time tt w = spacer_loop bits env time' tt' (emit (Delay_us 10) w1)"
      by (subst spacer_loop.simps) (simp add: True dr time'_def tt'_def)
    then have "spacer_loop bits env time tt w = Some (advance (Suc k) w)"
      using k(1) by (simp add: w1 advance_step)
    moreover have "int (Suc k) * 10 \<le> max 0 (50009 - tt)"
      using k(2) t2 True by simp
    ultimately show ?thesis by blast
  qed
qed

lemma findNextSpacer_returns:
  assumes "17 \<le> bits"
  shows "\<exists>k\<le>5000. findNextSpacer bits env w = Some (advance k (w\<lparr>spacer_calls := Suc (spacer_calls w)\<rparr>))"
proof -
  obtain k where k: "spacer_loop bits env 0 0 (w\<lparr>spacer_calls := Suc (spacer_calls w)\<rparr>)
      = Some (advance k (w\<lparr>spacer_calls := Suc (spacer_calls w)\<rparr>))" "int k * 10 \<le> max 0 (50009 - 0)"
    using spacer_loop_returns[OF assms, of 0 0 env "w\<lparr>spacer_calls := Suc (spacer_calls w)\<rparr>"] by auto
  then have "k \<le> 5000" by simp
  with k(1) show ?thesis by (auto simp: findNextSpacer_def)
qed

lemma spacer_loop_frame:
  assumes "spacer_loop bits env time tt w = Some w'"
  shows "\<exists>k. w' = advance k w"
proof (rule spacer_loop.raw_induct[where P = "\<lambda>bits env time tt w w'. \<exists>k. w' = advance k w", OF _ assms])
  fix f :: "nat \<Rightarrow> env \<Rightarrow> int \<Rightarrow> int \<Rightarrow> world \<Rightarrow> world option" 
  fix bits env time tt w w'
  assume IH: "\<And>bits env time tt w w'. f bits env time tt w = Some w' \<Longrightarrow> \<exists>k. w' = advance k w"
  assume eq: "(if time < 3000 \<and> tt < 50000
      then case digitalRead env w of
           (lvl, w1) \<Rightarrow> f bits env (if lvl = LOW then wrap_int bits (time + 10) else 0)
              (wrap_int bits (tt + 10)) (emit (Delay_us 10) w1)
      else Some w) = Some w'"
  show "\<exists>k. w' = advance k w"
  proof (cases "time < 3000 \<and> tt < 50000")
    case False
    with eq have "w' = advance 0 w" by (auto simp: advance_0)
    then show ?thesis by blast
  next
    case True
    obtain lvl w1 where dr: "digitalRead env w = (lvl, w1)" by (cases "digitalRead env w")
    from eq True dr have "f bits env (if lvl = LOW then wrap_int bits (time + 10) else 0)
              (wrap_int bits (tt + 10)) (emit (Delay_us 10) w1) = Some w'"
      by simp
    from IH[OF this] obtain k where "w' = advance k (emit (Delay_us 10) w1)" ..
    then have "w' = advance (Suc k) w" using dr advance_step[of k env w] by simp
    then show ?thesis by blast
  qed
qed

lemma spacer_loop_hangs:
  assumes "spacer_loop bits env time tt w = Some w'"
  shows "\<not> (bits = 16 \<and> (\<forall>k. line env k = HIGH) \<and> time = 0 \<and> tt < 32768)"
proof (rule spacer_loop.raw_induct[where P = "\<lambda>bits env time tt w w'.
     \<not> (bits = 16 \<and> (\<forall>k. line env k = HIGH) \<and> time = 0 \<and> tt < 32768)", OF _ assms])
  fix f :: "nat \<Rightarrow> env \<Rightarrow> int \<Rightarrow> int \<Rightarrow> world \<Rightarrow> world option" 
  fix bits env time tt w w'
  assume IH: "\<And>bits env time tt w w'. f bits env time tt w = Some w' \<Longrightarrow>
     \<not> (bits = 16 \<and> (\<forall>k. line env k = HIGH) \<and> time = 0 \<and> tt < 32768)"
  assume eq: "(if time < 3000 \<and> tt < 50000
      then case digitalRead env w of
           (lvl, w1) \<Rightarrow> f bits env (if lvl = LOW then wrap_int bits (time + 10) else 0)
              (wrap_int bits (tt + 10)) (emit (Delay_us 10) w1)
      else Some w) = Some w'"
  show "\<not> (bits = 16 \<and> (\<forall>k. line env k = HIGH) \<and> time = 0 \<and> tt < 32768)"
  proof
    assume a: "bits = 16 \<and> (\<forall>k. line env k = HIGH) \<and> time = 0 \<and> tt < 32768"
    have lt: "wrap_int 16 (tt + 10) < 32768"
      by (simp add: wrap_int_def)
    obtain lvl w1 where dr: "digitalRead env w = (lvl, w1)" by (cases "digitalRead env w")
    then have "lvl = HIGH" using a by (auto simp: digitalRead_def)
    with eq a dr have "f 16 env 0 (wrap_int 16 (tt + 10)) (emit (Delay_us 10) w1) = Some w'"
      by simp
    from IH[OF this] a lt show False by simp
  qed
qed

lemma findNextSpacer_frame:
  assumes "findNextSpacer bits env w = Some w'"
  shows "\<exists>k. w' = advance k (w\<lparr>spacer_calls := Suc (spacer_calls w)\<rparr>)"
  using assms spacer_loop_frame unfolding findNextSpacer_def by blast

lemma findNextSpacer_never_low:
  assumes "\<forall>k. line env k = HIGH"
  shows "findNextSpacer 16 env w = None"
proof (cases "findNextSpacer 16 env w")
  case None
  then show ?thesis .
next
  case (Some w')
  then have False
    using spacer_loop_hangs [of 16 env 0 0 _ w'] assms
    by (simp add: findNextSpacer_def)
  then show ?thesis ..
qed

lemma int16_range:
  assumes "16 \<le> bits" shows "(32768::int) \<le> 2 ^ (bits - 1)"
proof -
  have "(2::int) ^ 15 \<le> 2 ^ (bits - 1)"
    using assms by (intro power_increasing) simp_all
  then show ?thesis by simp
qed

lemma spacer_loop_quiet:
  assumes bits: "16 \<le> bits" and low: "\<forall>k. line env k = LOW"
  shows "n \<le> 300 \<Longrightarrow>
     spacer_loop bits env (10 * int n) (10 * int n) w = Some (advance (300 - n) w)"
proof (induction "300 - n" arbitrary: n w)
  case 0
  then have "n = 300" by simp
  then show ?case
    by (subst spacer_loop.simps) (simp add: advance_0)
next
  case (Suc m)
  then have n: "n < 300" by simp
  have b: "0 < bits" using bits by simp
  have big: "(32768::int) \<le> 2 ^ (bits - 1)" by (rule int16_range[OF bits])
  have t1: "wrap_int bits (10 * int n + 10) = 10 * int (Suc n)"
    using n big by (subst wrap_int_id[OF b]) simp_all
  let ?w1 = "emit (Delay_us 10) (snd (digitalRead env w))"
  have lt: "10 * int n < 3000" "10 * int n < 50000" using n by simp_all
  have step: "spacer_loop bits env (10 * int n) (10 * int n) w
      = spacer_loop bits env (10 * int (Suc n)) (10 * int (Suc n)) ?w1"
    by (subst spacer_loop.simps) (simp only: lt low digitalRead_def t1 if_True simp_thms split snd_conv)
  have "m = 300 - Suc n" "Suc n \<le> 300" using Suc(2) n by simp_all
  from Suc(1)[OF this, of ?w1]
  have "spacer_loop bits env (10 * int (Suc n)) (10 * int (Suc n)) ?w1
      = Some (advance (300 - Suc n) ?w1)" .
  moreover have "Suc (300 - Suc n) = 300 - n" using n by simp
  ultimately show ?case
    unfolding step by (simp add: advance_step)
qed

lemma findNextSpacer_quiet:
  assumes "16 \<le> bits" and "\<forall>k. line env k = LOW"
  shows "findNextSpacer bits env w = Some (advance 300 (w\<lparr>spacer_calls := Suc (spacer_calls w)\<rparr>))"
  using spacer_loop_quiet[OF assms, of 0 "w\<lparr>spacer_calls := Suc (spacer_calls w)\<rparr>"]
  by (simp add: findNextSpacer_def)

text \<open>
  Claim C8, at the input where the sketch breaks it: an \<^verbatim>\<open>int\<close> of 16 bits and a line
  that reads HIGH at every sample. \<^verbatim>\<open>total_time\<close> wraps around before it reaches
  50000, \<^verbatim>\<open>time\<close> stays 0, and the loop never ends. (With an \<^verbatim>\<open>int\<close> of 17 bits or
  more the loop ends within 5000 rounds: lemma \<open>findNextSpacer_returns\<close>.)
\<close>

theorem findNextSpacer_hangs_int16: "findNextSpacer 16 stuck_high idle_world = None"
  by (rule findNextSpacer_never_low) (simp add: stuck_high_def)

subsection \<open>readNextCode\<close>

lemma readNextCode_from_scan:
  "readNextCode_from bits env i buf w =
     (case scan_from env i buf w of
        (r, resync, b, w1) \<Rightarrow>
          if resync then findNextSpacer bits env w1 \<bind> (\<lambda>w2. Some (r, b, w2))
          else Some (r, b, w1))"
proof (induction env i buf w rule: scan_from.induct)
  case (1 env i buf w)
  show ?case
    apply (subst readNextCode_from.simps)
    apply (subst scan_from.simps)
    apply (simp split: prod.splits)
    using 1
    apply (auto split: prod.splits)
    done
qed

lemma scan_from_step:
  assumes "i < 12"
  shows "scan_from env i buf w =
     (let first = pulses env (pulse_idx w); second = pulses env (Suc (pulse_idx w));
          w1 = w\<lparr>pulse_idx := Suc (pulse_idx w)\<rparr>;
          w2 = w\<lparr>pulse_idx := Suc (Suc (pulse_idx w))\<rparr>
      in if no_pulse first then
           (if i \<ge> 1 then
              (0, True, buf, emits [Print ''DEBUG: '', Print_num i, Print '': '',
                 Println_num (unat first), Println ''FAIL (first pulse)''] w1)
            else (0, False, buf, w1))
         else if no_pulse second then
           (if i \<ge> 1 then
              (0, True, buf, emits [Print ''DEBUG: '', Print_num i, Print '': '',
                 Print_num (unat second), Println ''FAIL (second pulse)''] w2)
            else (0, False, buf, w2))
         else if decode first second = INVALID then
           (case store i CHR ''X'' buf w2 of (b, w3) \<Rightarrow>
            case store (i + 1) NUL b w3 of (b, w4) \<Rightarrow> (0, True, b, w4))
         else
           (case store i (symbol_char (decode first second)) buf w2 of (b, w3) \<Rightarrow>
              scan_from env (i + 1) b w3))"
  using assms
  by (subst scan_from.simps) (simp add: pulseIn_def no_pulse_def decode_def Let_def)

lemma scan_from_done:
  assumes "\<not> i < 12"
  shows "scan_from env i buf w =
     (case store 12 NUL buf (emit (Delay_us 5000) w) of (b, w') \<Rightarrow> (1, False, b, w'))"
  using assms by (subst scan_from.simps) simp

lemma scan_frame:
  "scan_from env i buf w = (r, rs, b, w1) \<Longrightarrow>
     spacer_calls w1 = spacer_calls w \<and> reader_calls w1 = reader_calls w \<and>
     sample_idx w1 = sample_idx w \<and> length b = length buf \<and> r \<le> 1 \<and> (rs \<longrightarrow> r = 0)"
proof (induction "12 - i" arbitrary: i buf w)
  case 0
  then have "\<not> i < 12" by simp
  from scan_from_done[OF this, of env buf w] 0(2) show ?case
    by (auto simp: store_def emit_def split: if_splits)
next
  case (Suc n)
  then have i: "i < 12" by simp
  have n: "n = 12 - (i + 1)" using Suc(2) by simp
  show ?case
    using Suc(3) Suc(1)[OF n] unfolding scan_from_step[OF i]
    by (auto simp: Let_def store_def emits_trace split: if_splits)
qed

lemma scan_oob:
  "scan_from env i buf w = (r, rs, b, w1) \<Longrightarrow> length buf = 13 \<Longrightarrow> oob w1 = oob w"
proof (induction "12 - i" arbitrary: i buf w)
  case 0
  then have "\<not> i < 12" by simp
  from scan_from_done[OF this, of env buf w] 0(2,3) show ?case
    by (auto simp: store_def emit_def split: if_splits)
next
  case (Suc n)
  then have i: "i < 12" by simp
  have n: "n = 12 - (i + 1)" using Suc(2) by simp
  show ?case
    using Suc(3,4) Suc(1)[OF n] i unfolding scan_from_step[OF i]
    by (auto simp: Let_def store_def emits_trace split: if_splits)
qed

lemma symbol_char_valid:
  "s \<noteq> INVALID \<Longrightarrow> symbol_char s \<in> {CHR ''0'', CHR ''1'', CHR ''F''}"
  by (cases s) simp_all

lemma scan_success:
  "scan_from env i buf w = (r, rs, b, w1) \<Longrightarrow> r \<noteq> 0 \<Longrightarrow> length buf = 13 \<Longrightarrow> i \<le> 12 \<Longrightarrow>
     (\<forall>j<i. buf ! j \<in> {CHR ''0'', CHR ''1'', CHR ''F''}) \<Longrightarrow>
     (\<forall>j<12. b ! j \<in> {CHR ''0'', CHR ''1'', CHR ''F''}) \<and> b ! 12 = NUL"
proof (induction "12 - i" arbitrary: i buf w)
  case 0
  then have i: "\<not> i < 12" "i = 12" by simp_all
  from scan_from_done[OF i(1), of env buf w] 0(2-) i(2) show ?case
    by (auto simp: store_def emit_def nth_list_update split: if_splits)
next
  case (Suc n)
  then have i: "i < 12" by simp
  have n: "n = 12 - (i + 1)" using Suc(2) by simp
  let ?s = "decode (pulses env (pulse_idx w)) (pulses env (Suc (pulse_idx w)))"
  have rec: "scan_from env (i + 1) (buf[i := symbol_char ?s]) (w\<lparr>pulse_idx := Suc (Suc (pulse_idx w))\<rparr>)
      = (r, rs, b, w1)" and ok: "?s \<noteq> INVALID"
    using Suc(3,4,5) i unfolding scan_from_step[OF i]
    by (auto simp: Let_def store_def split: if_splits)
  have pre: "\<forall>j<i + 1. buf[i := symbol_char ?s] ! j \<in> {CHR ''0'', CHR ''1'', CHR ''F''}"
    using Suc(7) symbol_char_valid[OF ok] Suc(5) i
    by (auto simp: nth_list_update less_Suc_eq)
  show ?case
    using Suc(1)[OF n rec Suc(4) _ _ pre] Suc(5) i by simp
qed


lemma decode_no_pulse:
  "no_pulse first \<Longrightarrow> decode first second = INVALID"
  "no_pulse second \<Longrightarrow> decode first second = INVALID"
  by (auto simp: no_pulse_def decode_def)

lemma store_in_range: "i < length buf \<Longrightarrow> store i c buf w = (buf[i := c], w)"
  by (simp add: store_def)

lemma store_pulse_idx: "pulse_idx (snd (store i c buf w)) = pulse_idx w"
  by (simp add: store_def)

lemma scan_fails:
  assumes "k < 12" and "symbol_at env p k = INVALID"
  shows "i \<le> k \<Longrightarrow> pulse_idx w = p + 2 * i \<Longrightarrow>
     (\<forall>j. i \<le> j \<and> j < k \<longrightarrow> symbol_at env p j \<noteq> INVALID) \<Longrightarrow>
     \<exists>b w1. scan_from env i buf w =
       (0, 1 \<le> k \<or> (\<not> no_pulse (pulses env (p + 2 * k)) \<and> \<not> no_pulse (pulses env (p + 2 * k + 1))),
        b, w1)"
proof (induction "k - i" arbitrary: i buf w)
  case 0
  then have ik: "i = k" by simp
  have i: "i < 12" using ik assms(1) by simp
  have d: "decode (pulses env (pulse_idx w)) (pulses env (Suc (pulse_idx w))) = INVALID"
    using assms(2) 0(3) ik by (simp add: symbol_at_def)
  show ?case
    unfolding scan_from_step[OF i] using d 0(3) ik
    by (auto simp: Let_def split: prod.splits)
next
  case (Suc n)
  then have ik: "i < k" by simp
  have i: "i < 12" using ik assms(1) by simp
  have d: "decode (pulses env (pulse_idx w)) (pulses env (Suc (pulse_idx w))) \<noteq> INVALID"
    using Suc(4,5) ik by (simp add: symbol_at_def)
  then have np: "\<not> no_pulse (pulses env (pulse_idx w))" "\<not> no_pulse (pulses env (Suc (pulse_idx w)))"
    using decode_no_pulse by blast+
  obtain b w3 where st: "store i (symbol_char (decode (pulses env (pulse_idx w)) (pulses env (Suc (pulse_idx w)))))
      buf (w\<lparr>pulse_idx := Suc (Suc (pulse_idx w))\<rparr>) = (b, w3)"
    by (cases "store i (symbol_char (decode (pulses env (pulse_idx w)) (pulses env (Suc (pulse_idx w)))))
      buf (w\<lparr>pulse_idx := Suc (Suc (pulse_idx w))\<rparr>)")
  have "pulse_idx w3 = pulse_idx (w\<lparr>pulse_idx := Suc (Suc (pulse_idx w))\<rparr>)"
    using st by (auto simp: store_def split: if_splits)
  then have p3: "pulse_idx w3 = p + 2 * (i + 1)"
    using Suc(4) by simp
  have step: "scan_from env i buf w = scan_from env (i + 1) b w3"
    unfolding scan_from_step[OF i] using d np st by (simp add: Let_def)
  have "n = k - (i + 1)" "i + 1 \<le> k" using Suc(2) ik by simp_all
  from Suc(1)[OF this p3, of b] Suc(5) show ?case
    unfolding step by simp
qed

lemma scan_succeeds:
  "i \<le> 12 \<Longrightarrow> pulse_idx w = p + 2 * i \<Longrightarrow> length buf = 13 \<Longrightarrow>
     (\<forall>j. i \<le> j \<and> j < 12 \<longrightarrow> symbol_at env p j \<noteq> INVALID) \<Longrightarrow>
     scan_from env i buf w =
       (1, False,
        map (\<lambda>j. if j < i then buf ! j else symbol_char (symbol_at env p j)) [0..<12] @ [NUL],
        w\<lparr>pulse_idx := p + 24, trace := trace w @ [Delay_us 5000]\<rparr>)"
proof (induction "12 - i" arbitrary: i buf w)
  case 0
  then have i: "\<not> i < 12" "i = 12" by simp_all
  have "buf[12 := NUL] = map (\<lambda>j. buf ! j) [0..<12] @ [NUL]"
    using 0(4) by (intro nth_equalityI) (auto simp: nth_append nth_list_update less_Suc_eq)
  then show ?case
    unfolding scan_from_done[OF i(1)] using 0(3,4) i(2)
    by (simp add: store_def emit_def)
next
  case (Suc n)
  then have i: "i < 12" by simp
  let ?s = "decode (pulses env (pulse_idx w)) (pulses env (Suc (pulse_idx w)))"
  have s: "?s = symbol_at env p i" using Suc(4) by (simp add: symbol_at_def)
  have d: "?s \<noteq> INVALID" using Suc(6) i s by simp
  then have np: "\<not> no_pulse (pulses env (pulse_idx w))" "\<not> no_pulse (pulses env (Suc (pulse_idx w)))"
    using decode_no_pulse by blast+
  have step: "scan_from env i buf w =
      scan_from env (i + 1) (buf[i := symbol_char ?s]) (w\<lparr>pulse_idx := Suc (Suc (pulse_idx w))\<rparr>)"
    unfolding scan_from_step[OF i] using d np i Suc(5) by (simp add: Let_def store_def)
  have m: "map (\<lambda>j. if j < i + 1 then buf[i := symbol_char ?s] ! j else symbol_char (symbol_at env p j)) [0..<12]
      = map (\<lambda>j. if j < i then buf ! j else symbol_char (symbol_at env p j)) [0..<12]"
    using i Suc(5) s by (intro map_cong) (auto simp: nth_list_update less_Suc_eq)
  have "n = 12 - (i + 1)" "i + 1 \<le> 12" using Suc(2) i by simp_all
  from Suc(1)[OF this, of "w\<lparr>pulse_idx := Suc (Suc (pulse_idx w))\<rparr>" "buf[i := symbol_char ?s]"]
    Suc(4,5,6)
  show ?case unfolding step m by simp
qed


lemma advance_fields [simp]:
  "spacer_calls (advance k w) = spacer_calls w"
  "reader_calls (advance k w) = reader_calls w"
  "pulse_idx (advance k w) = pulse_idx w"
  "oob (advance k w) = oob w"
  by (simp_all add: advance_def)

lemma readNextCode_scan:
  "readNextCode bits env buf w =
     (case scan_from env 0 buf (w\<lparr>reader_calls := Suc (reader_calls w)\<rparr>) of
        (r, resync, b, w1) \<Rightarrow>
          if resync then findNextSpacer bits env w1 \<bind> (\<lambda>w2. Some (r, b, w2))
          else Some (r, b, w1))"
  by (simp add: readNextCode_def readNextCode_from_scan)

lemma readNextCode_frame:
  assumes "readNextCode bits env buf w = Some (r, b, w')"
  shows "reader_calls w' = Suc (reader_calls w)" and "r \<le> 1" and "length b = length buf"
    and "length buf = 13 \<Longrightarrow> oob w' = oob w"
proof -
  obtain r0 rs b0 w1 where sc: "scan_from env 0 buf (w\<lparr>reader_calls := Suc (reader_calls w)\<rparr>) = (r0, rs, b0, w1)"
    by (cases "scan_from env 0 buf (w\<lparr>reader_calls := Suc (reader_calls w)\<rparr>)") auto
  note fr = scan_frame[OF sc]
  have ob: "length buf = 13 \<Longrightarrow> oob w1 = oob w" using scan_oob[OF sc] by simp
  have "r = r0 \<and> b = b0 \<and> reader_calls w' = reader_calls w1 \<and> oob w' = oob w1"
  proof (cases rs)
    case False
    then show ?thesis using assms sc by (simp add: readNextCode_scan)
  next
    case True
    then obtain w2 where w2: "findNextSpacer bits env w1 = Some w2" "r = r0" "b = b0" "w' = w2"
      using assms sc by (auto simp: readNextCode_scan split: bind_splits)
    from findNextSpacer_frame[OF w2(1)] w2 show ?thesis by auto
  qed
  then show "reader_calls w' = Suc (reader_calls w)" and "r \<le> 1" and "length b = length buf"
    and "length buf = 13 \<Longrightarrow> oob w' = oob w"
    using fr ob by simp_all
qed

lemma readNextCode_returns:
  assumes "17 \<le> bits"
  shows "\<exists>r b w'. readNextCode bits env buf w = Some (r, b, w')"
proof -
  obtain r0 rs b0 w1 where sc: "scan_from env 0 buf (w\<lparr>reader_calls := Suc (reader_calls w)\<rparr>) = (r0, rs, b0, w1)"
    by (cases "scan_from env 0 buf (w\<lparr>reader_calls := Suc (reader_calls w)\<rparr>)") auto
  obtain w2 where "findNextSpacer bits env w1 = Some w2"
    using findNextSpacer_returns[OF assms, of env w1] by blast
  then show ?thesis by (cases rs) (simp_all add: readNextCode_scan sc)
qed

text \<open>
  Claim C9. Whenever \<^verbatim>\<open>readNextCode\<close> returns 1, the buffer holds twelve symbols, each
  of them 0, 1 or F, and the terminator at index 12; the marker X is not among them.
\<close>

theorem readNextCode_success_code:
  "readNextCode bits env buf w = Some (1, b, w') \<Longrightarrow> length buf = 13 \<Longrightarrow>
     length b = 13 \<and> (\<forall>j<12. b ! j \<in> {CHR ''0'', CHR ''1'', CHR ''F''}) \<and> b ! 12 = NUL \<and>
     CHR ''X'' \<notin> set (take 12 b)"
proof -
  assume a: "readNextCode bits env buf w = Some (1, b, w')" and l: "length buf = 13"
  obtain r0 rs b0 w1 where sc: "scan_from env 0 buf (w\<lparr>reader_calls := Suc (reader_calls w)\<rparr>) = (r0, rs, b0, w1)"
    by (cases "scan_from env 0 buf (w\<lparr>reader_calls := Suc (reader_calls w)\<rparr>)") auto
  have "r0 = 1 \<and> b0 = b"
    using a sc by (cases rs) (auto simp: readNextCode_scan split: bind_splits)
  then have sc1: "scan_from env 0 buf (w\<lparr>reader_calls := Suc (reader_calls w)\<rparr>) = (1, rs, b, w1)"
    using sc by simp
  from scan_success[OF sc1 _ l] have s: "\<forall>j<12. b ! j \<in> {CHR ''0'', CHR ''1'', CHR ''F''}" "b ! 12 = NUL"
    by simp_all
  have len: "length b = 13" using scan_frame[OF sc1] l by simp
  have "CHR ''X'' \<notin> set (take 12 b)"
  proof
    assume "CHR ''X'' \<in> set (take 12 b)"
    then obtain j where "j < 12" "b ! j = CHR ''X''"
      using len by (auto simp: in_set_conv_nth)
    with s(1) show False by auto
  qed
  with s len show ?thesis by simp
qed

lemma all_float_reading:
  "readNextCode 16 all_float blank_buf idle_world =
     Some (1, ''FFFFFFFFFFFF'' @ [NUL],
       \<lparr>pulse_idx = 24, sample_idx = 0, trace = [Delay_us 5000], spacer_calls = 0,
        reader_calls = 1, oob = False\<rparr>)"
  by code_simp

theorem readNextCode_success_code_witness:
  "length (''FFFFFFFFFFFF'' @ [NUL]) = 13 \<and> (''FFFFFFFFFFFF'' @ [NUL]) ! 12 = NUL \<and>
   CHR ''X'' \<notin> set (take 12 (''FFFFFFFFFFFF'' @ [NUL])) \<and>
   (''FFFFFFFFFFFF'' @ [NUL]) ! 0 \<in> {CHR ''0'', CHR ''1'', CHR ''F''}"
  using readNextCode_success_code [OF all_float_reading]
  by (simp add: blank_buf_def)


text \<open>
  The two ways a reading fails, with \<open>k\<close> the first position whose pair of pulses does
  not decode: without a call of \<^verbatim>\<open>findNextSpacer\<close>, or through exactly one such call.
\<close>

lemma readNextCode_resync_cases:
  assumes "k < 12" and "\<forall>j<k. symbol_at env (pulse_idx w) j \<noteq> INVALID"
    and "symbol_at env (pulse_idx w) k = INVALID"
  shows "(k = 0 \<and> (no_pulse (pulses env (pulse_idx w)) \<or> no_pulse (pulses env (pulse_idx w + 1))) \<longrightarrow>
            (\<exists>b w1. scan_from env 0 buf (w\<lparr>reader_calls := Suc (reader_calls w)\<rparr>) = (0, False, b, w1) \<and>
               readNextCode bits env buf w = Some (0, b, w1) \<and>
               spacer_calls w1 = spacer_calls w \<and> sample_idx w1 = sample_idx w)) \<and>
         (1 \<le> k \<or> (\<not> no_pulse (pulses env (pulse_idx w)) \<and> \<not> no_pulse (pulses env (pulse_idx w + 1))) \<longrightarrow>
            (\<exists>b w1. scan_from env 0 buf (w\<lparr>reader_calls := Suc (reader_calls w)\<rparr>) = (0, True, b, w1) \<and>
               spacer_calls w1 = spacer_calls w \<and>
               readNextCode bits env buf w = findNextSpacer bits env w1 \<bind> (\<lambda>w2. Some (0, b, w2)) \<and>
               (\<forall>r b' w'. readNextCode bits env buf w = Some (r, b', w') \<longrightarrow>
                  r = 0 \<and> spacer_calls w' = Suc (spacer_calls w))))"
proof -
  let ?w = "w\<lparr>reader_calls := Suc (reader_calls w)\<rparr>"
  let ?flag = "1 \<le> k \<or> (\<not> no_pulse (pulses env (pulse_idx w + 2 * k)) \<and>
      \<not> no_pulse (pulses env (pulse_idx w + 2 * k + 1)))"
  have "\<forall>j. 0 \<le> j \<and> j < k \<longrightarrow> symbol_at env (pulse_idx w) j \<noteq> INVALID"
    using assms(2) by simp
  from scan_fails[OF assms(1,3) _ _ this, of ?w buf]
  obtain b w1 where sc: "scan_from env 0 buf ?w = (0, ?flag, b, w1)"
    by auto
  have fr: "spacer_calls w1 = spacer_calls w" "sample_idx w1 = sample_idx w"
    using scan_frame[OF sc] by simp_all
  have d: "no_pulse (pulses env (pulse_idx w)) \<or> no_pulse (pulses env (pulse_idx w + 1)) \<Longrightarrow>
      symbol_at env (pulse_idx w) 0 = INVALID"
    using decode_no_pulse by (auto simp: symbol_at_def)
  show ?thesis
  proof (intro conjI impI)
    assume a: "k = 0 \<and> (no_pulse (pulses env (pulse_idx w)) \<or> no_pulse (pulses env (pulse_idx w + 1)))"
    then have "\<not> ?flag" by auto
    then have sc0: "scan_from env 0 buf ?w = (0, False, b, w1)" using sc by simp
    then show "\<exists>b w1. scan_from env 0 buf ?w = (0, False, b, w1) \<and>
               readNextCode bits env buf w = Some (0, b, w1) \<and>
               spacer_calls w1 = spacer_calls w \<and> sample_idx w1 = sample_idx w"
      using fr by (simp add: readNextCode_scan)
  next
    assume a: "1 \<le> k \<or> (\<not> no_pulse (pulses env (pulse_idx w)) \<and> \<not> no_pulse (pulses env (pulse_idx w + 1)))"
    have "?flag"
    proof (cases "1 \<le> k")
      case True
      then show ?thesis by simp
    next
      case False
      then have "k = 0" by simp
      with a show ?thesis by simp
    qed
    then have sc1: "scan_from env 0 buf ?w = (0, True, b, w1)" using sc by simp
    have eq: "readNextCode bits env buf w = findNextSpacer bits env w1 \<bind> (\<lambda>w2. Some (0, b, w2))"
      using sc1 by (simp add: readNextCode_scan)
    have "\<forall>r b' w'. readNextCode bits env buf w = Some (r, b', w') \<longrightarrow>
                  r = 0 \<and> spacer_calls w' = Suc (spacer_calls w)"
    proof (intro allI impI)
      fix r b' w'
      assume "readNextCode bits env buf w = Some (r, b', w')"
      then obtain w2 where w2: "findNextSpacer bits env w1 = Some w2" "r = 0" "w' = w2"
        unfolding eq by (auto split: bind_splits)
      from findNextSpacer_frame[OF w2(1)] w2 fr
      show "r = 0 \<and> spacer_calls w' = Suc (spacer_calls w)" by auto
    qed
    with sc1 eq fr show "\<exists>b w1. scan_from env 0 buf ?w = (0, True, b, w1) \<and>
               spacer_calls w1 = spacer_calls w \<and>
               readNextCode bits env buf w = findNextSpacer bits env w1 \<bind> (\<lambda>w2. Some (0, b, w2)) \<and>
               (\<forall>r b' w'. readNextCode bits env buf w = Some (r, b', w') \<longrightarrow>
                  r = 0 \<and> spacer_calls w' = Suc (spacer_calls w))"
      by blast
  qed
qed

lemma findNextSpacer_returns_or_quiet:
  assumes "17 \<le> bits \<or> (16 \<le> bits \<and> (\<forall>n. line env n = LOW))"
  shows "\<exists>w2. findNextSpacer bits env w = Some w2"
proof (cases "17 \<le> bits")
  case True
  from findNextSpacer_returns[OF this, of env w] show ?thesis by blast
next
  case False
  with assms have "16 \<le> bits" "\<forall>n. line env n = LOW" by simp_all
  from findNextSpacer_quiet[OF this, of w] show ?thesis by blast
qed

text \<open>
  Claim C2, as amended. Let \<open>k\<close> be the first position whose pair of pulses does not
  decode. When \<open>k = 0\<close> and the failure is a missing or too short pulse,
  \<^verbatim>\<open>readNextCode\<close> returns 0 and \<^verbatim>\<open>findNextSpacer\<close> is not called. When \<open>k \<ge> 1\<close>, or
  when both pulses are there and do not form a tri-state (at any position, 0 included),
  \<^verbatim>\<open>readNextCode\<close> calls \<^verbatim>\<open>findNextSpacer\<close> exactly once and returns 0 as soon as that
  call returns. The call returns, and so \<^verbatim>\<open>readNextCode\<close> returns 0, on every input
  when an \<^verbatim>\<open>int\<close> has 17 bits or more, and on a line that stays low when it has 16.
\<close>

theorem readNextCode_resync_rule:
  assumes "k < 12" and "\<forall>j<k. symbol_at env (pulse_idx w) j \<noteq> INVALID"
    and "symbol_at env (pulse_idx w) k = INVALID"
  shows "(k = 0 \<and> (no_pulse (pulses env (pulse_idx w)) \<or> no_pulse (pulses env (pulse_idx w + 1))) \<longrightarrow>
            (\<exists>b w1. scan_from env 0 buf (w\<lparr>reader_calls := Suc (reader_calls w)\<rparr>) = (0, False, b, w1) \<and>
               readNextCode bits env buf w = Some (0, b, w1) \<and>
               spacer_calls w1 = spacer_calls w \<and> sample_idx w1 = sample_idx w)) \<and>
         (1 \<le> k \<or> (\<not> no_pulse (pulses env (pulse_idx w)) \<and> \<not> no_pulse (pulses env (pulse_idx w + 1))) \<longrightarrow>
            (\<exists>b w1. scan_from env 0 buf (w\<lparr>reader_calls := Suc (reader_calls w)\<rparr>) = (0, True, b, w1) \<and>
               spacer_calls w1 = spacer_calls w \<and>
               readNextCode bits env buf w = findNextSpacer bits env w1 \<bind> (\<lambda>w2. Some (0, b, w2)) \<and>
               (\<forall>r b' w'. readNextCode bits env buf w = Some (r, b', w') \<longrightarrow>
                  r = 0 \<and> spacer_calls w' = Suc (spacer_calls w)))) \<and>
         ((1 \<le> k \<or> (\<not> no_pulse (pulses env (pulse_idx w)) \<and> \<not> no_pulse (pulses env (pulse_idx w + 1)))) \<and>
          (17 \<le> bits \<or> (16 \<le> bits \<and> (\<forall>n. line env n = LOW))) \<longrightarrow>
            (\<exists>b w'. readNextCode bits env buf w = Some (0, b, w') \<and>
               spacer_calls w' = Suc (spacer_calls w)))"
proof -
  note cases = readNextCode_resync_cases[OF assms, of buf bits]
  have "\<exists>b w'. readNextCode bits env buf w = Some (0, b, w') \<and> spacer_calls w' = Suc (spacer_calls w)"
    if f: "1 \<le> k \<or> (\<not> no_pulse (pulses env (pulse_idx w)) \<and> \<not> no_pulse (pulses env (pulse_idx w + 1)))"
      and r: "17 \<le> bits \<or> (16 \<le> bits \<and> (\<forall>n. line env n = LOW))"
  proof -
    from cases f obtain b w1 where
      eq: "readNextCode bits env buf w = findNextSpacer bits env w1 \<bind> (\<lambda>w2. Some (0, b, w2))"
      and sc: "spacer_calls w1 = spacer_calls w"
      by blast
    from findNextSpacer_returns_or_quiet[OF r, of w1] obtain w2 where
      w2: "findNextSpacer bits env w1 = Some w2" by blast
    from findNextSpacer_frame[OF w2] sc have "spacer_calls w2 = Suc (spacer_calls w)" by auto
    then show ?thesis using eq w2 by simp
  qed
  with cases show ?thesis by blast
qed

theorem readNextCode_resync_rule_witness:
  "(\<exists>b w1. readNextCode 16 stuck_high blank_buf idle_world = Some (0, b, w1) \<and> spacer_calls w1 = 0) \<and>
   (\<exists>b w'. readNextCode 16 late_failure blank_buf idle_world = Some (0, b, w') \<and> spacer_calls w' = 1) \<and>
   (\<exists>b w'. readNextCode 32 malformed_first blank_buf idle_world = Some (0, b, w') \<and> spacer_calls w' = 1)"
proof -
  have h0: "symbol_at stuck_high (pulse_idx idle_world) 0 = INVALID"
    by (simp add: symbol_at_def decode_def stuck_high_def)
  have n0: "no_pulse (pulses stuck_high (pulse_idx idle_world))"
    by (simp add: no_pulse_def stuck_high_def)
  have h1: "\<forall>j<1. symbol_at late_failure (pulse_idx idle_world) j \<noteq> INVALID"
    by (simp add: symbol_at_def decode_def late_failure_def idle_world_def short_min_def long_min_def)
  have h2: "symbol_at late_failure (pulse_idx idle_world) 1 = INVALID"
    by (simp add: symbol_at_def decode_def late_failure_def idle_world_def)
  have q: "16 \<le> (16::nat) \<and> (\<forall>n. line late_failure n = LOW)"
    by (simp add: late_failure_def)
  have h3: "symbol_at malformed_first (pulse_idx idle_world) 0 = INVALID"
    by (simp add: symbol_at_def decode_def malformed_first_def idle_world_def short_min_def long_min_def)
  have m: "\<not> no_pulse (pulses malformed_first (pulse_idx idle_world)) \<and>
      \<not> no_pulse (pulses malformed_first (pulse_idx idle_world + 1))"
    by (simp add: no_pulse_def malformed_first_def idle_world_def short_min_def)
  have a: "\<exists>b w1. readNextCode 16 stuck_high blank_buf idle_world = Some (0, b, w1) \<and> spacer_calls w1 = 0"
    using readNextCode_resync_rule [where k = 0 and env = stuck_high and w = idle_world and buf = blank_buf and bits = 16] h0 n0
    by (auto simp: idle_world_def)
  have b: "\<exists>b w'. readNextCode 16 late_failure blank_buf idle_world = Some (0, b, w') \<and> spacer_calls w' = 1"
    using readNextCode_resync_rule [where k = 1 and env = late_failure and w = idle_world and buf = blank_buf and bits = 16] h1 h2 q
    by (auto simp: idle_world_def)
  have c: "\<exists>b w'. readNextCode 32 malformed_first blank_buf idle_world = Some (0, b, w') \<and> spacer_calls w' = 1"
    using readNextCode_resync_rule [where k = 0 and env = malformed_first and w = idle_world and buf = blank_buf and bits = 32] h3 m
    by (auto simp: idle_world_def)
  from a b c show ?thesis by blast
qed

lemma malformed_first_scan:
  "scan_from malformed_first 0 blank_buf (idle_world\<lparr>reader_calls := Suc (reader_calls idle_world)\<rparr>) =
     (0, True, [CHR ''X'', NUL] @ replicate 11 CHR ''?'',
      \<lparr>pulse_idx = 2, sample_idx = 0, trace = [], spacer_calls = 0, reader_calls = 1, oob = False\<rparr>)"
  by code_simp

lemma malformed_first_low: "\<forall>k. line malformed_first k = LOW"
  by (simp add: malformed_first_def)

text \<open>
  Claim C2 as stated fails for a long pulse followed by a short one at position 0: the
  branch of lines 136 to 144 has no test of \<^verbatim>\<open>i\<close>: the reader returns 0, and
  \<^verbatim>\<open>findNextSpacer\<close> has been called once and has read 300 samples of a low line.
\<close>

theorem malformed_first_counterexample:
  "map_option fst (readNextCode 16 malformed_first blank_buf idle_world) = Some 0 \<and>
   map_option (spacer_calls \<circ> snd \<circ> snd) (readNextCode 16 malformed_first blank_buf idle_world) = Some 1 \<and>
   map_option (sample_idx \<circ> snd \<circ> snd) (readNextCode 16 malformed_first blank_buf idle_world) = Some 300"
  by (simp add: readNextCode_scan malformed_first_scan
      findNextSpacer_quiet [OF order_refl malformed_first_low] advance_def)

text \<open>
  Claim C10. On a buffer of 13 characters no store of \<^verbatim>\<open>readNextCode\<close> is out of
  bounds, on any pulse train: not in the part of the run that ends with the return or
  with the call of \<^verbatim>\<open>findNextSpacer\<close>, where all the stores are, and so not in a run
  that returns.
\<close>

theorem readNextCode_stores_in_bounds:
  assumes "length buf = 13"
  shows "(case scan_from env 0 buf (w\<lparr>reader_calls := Suc (reader_calls w)\<rparr>) of
            (r, resync, b, w1) \<Rightarrow>
              oob w1 = oob w \<and> length b = 13 \<and>
              readNextCode bits env buf w =
                (if resync then findNextSpacer bits env w1 \<bind> (\<lambda>w2. Some (r, b, w2))
                 else Some (r, b, w1))) \<and>
         (\<forall>r b w'. readNextCode bits env buf w = Some (r, b, w') \<longrightarrow> oob w' = oob w \<and> length b = 13)"
proof -
  obtain r0 rs b0 w1 where sc: "scan_from env 0 buf (w\<lparr>reader_calls := Suc (reader_calls w)\<rparr>) = (r0, rs, b0, w1)"
    by (cases "scan_from env 0 buf (w\<lparr>reader_calls := Suc (reader_calls w)\<rparr>)") auto
  have "oob w1 = oob w" "length b0 = 13"
    using scan_oob[OF sc] scan_frame[OF sc] assms by simp_all
  moreover have "readNextCode bits env buf w =
      (if rs then findNextSpacer bits env w1 \<bind> (\<lambda>w2. Some (r0, b0, w2)) else Some (r0, b0, w1))"
    by (simp add: readNextCode_scan sc)
  moreover have "\<forall>r b w'. readNextCode bits env buf w = Some (r, b, w') \<longrightarrow> oob w' = oob w \<and> length b = 13"
    using readNextCode_frame(3,4) assms by metis
  ultimately show ?thesis by (simp add: sc)
qed


lemma malformed_last_scan:
  "scan_from malformed_last 0 blank_buf (idle_world\<lparr>reader_calls := Suc (reader_calls idle_world)\<rparr>) =
     (0, True, ''00000000000X'' @ [NUL],
      \<lparr>pulse_idx = 24, sample_idx = 0, trace = [], spacer_calls = 0, reader_calls = 1, oob = False\<rparr>)"
  by code_simp

theorem readNextCode_stores_in_bounds_witness:
  "readNextCode 16 malformed_last blank_buf idle_world =
     findNextSpacer 16 malformed_last
       \<lparr>pulse_idx = 24, sample_idx = 0, trace = [], spacer_calls = 0, reader_calls = 1, oob = False\<rparr>
     \<bind> (\<lambda>w2. Some (0, ''00000000000X'' @ [NUL], w2))"
proof -
  have l: "length blank_buf = 13" by (simp add: blank_buf_def)
  show ?thesis
    using readNextCode_stores_in_bounds [OF l, where env = malformed_last and w = idle_world and bits = 16]
    by (simp add: malformed_last_scan)
qed

subsection \<open>loop\<close>

lemma readNextCode_round_trip:
  assumes "\<forall>j<12. symbol_at env (pulse_idx w) j \<noteq> INVALID" and "length buf = 13"
  shows "readNextCode bits env buf w =
     Some (1, map (\<lambda>j. symbol_char (symbol_at env (pulse_idx w) j)) [0..<12] @ [NUL],
       w\<lparr>pulse_idx := pulse_idx w + 24, trace := trace w @ [Delay_us 5000],
         reader_calls := Suc (reader_calls w)\<rparr>)"
proof -
  let ?w = "w\<lparr>reader_calls := Suc (reader_calls w)\<rparr>"
  have "\<forall>j. 0 \<le> j \<and> j < 12 \<longrightarrow> symbol_at env (pulse_idx w) j \<noteq> INVALID"
    using assms(1) by simp
  from scan_succeeds[of 0 ?w "pulse_idx w" buf env, OF _ _ assms(2) this]
  show ?thesis by (simp add: readNextCode_scan)
qed

lemma readNextCode_no_signal:
  assumes "no_pulse (pulses env (pulse_idx w))"
  shows "readNextCode bits env buf w =
     Some (0, buf, w\<lparr>pulse_idx := Suc (pulse_idx w), reader_calls := Suc (reader_calls w)\<rparr>)"
  using assms by (simp add: readNextCode_scan scan_from_step Let_def)

lemma read_codes_from_done:
  "\<not> i < resend_count \<Longrightarrow> read_codes_from bits env i n codes valid w = Some (n, codes, valid, w)"
  by (subst read_codes_from.simps) simp

lemma read_codes_from_hang:
  "i < resend_count \<Longrightarrow> readNextCode bits env (codes ! i) w = None \<Longrightarrow>
     read_codes_from bits env i n codes valid w = None"
  by (subst read_codes_from.simps) simp

lemma read_codes_from_step:
  "i < resend_count \<Longrightarrow> readNextCode bits env (codes ! i) w = Some (res, buf, w1) \<Longrightarrow>
     read_codes_from bits env i n codes valid w =
       (if n + res = 0 then Some (n + res, codes[i := buf], valid[i := res], w1)
        else read_codes_from bits env (Suc i) (n + res) (codes[i := buf]) (valid[i := res]) w1)"
  by (subst read_codes_from.simps) simp

lemma read_codes_from_mono:
  "read_codes_from bits env i n codes valid w = Some (n', c, v, w') \<Longrightarrow> n \<le> n'"
proof (induction "resend_count - i" arbitrary: i n codes valid w)
  case 0
  then have "\<not> i < resend_count" by simp
  from read_codes_from_done[OF this] 0(2) show ?case by simp
next
  case (Suc m)
  then have i: "i < resend_count" by simp
  show ?case
  proof (cases "readNextCode bits env (codes ! i) w")
    case None
    from read_codes_from_hang[OF i None] Suc(3) show ?thesis by simp
  next
    case (Some x)
    then obtain res buf w1 where r: "readNextCode bits env (codes ! i) w = Some (res, buf, w1)"
      by (cases x) auto
    have m: "m = resend_count - Suc i" using Suc(2) by simp
    show ?thesis
      using Suc(3) Suc(1)[OF m, of "n + res" "codes[i := buf]" "valid[i := res]" w1]
      unfolding read_codes_from_step[OF i r]
      by (auto split: if_splits)
  qed
qed

lemma read_codes_from_calls:
  "read_codes_from bits env i n codes valid w = Some (n', c, v, w') \<Longrightarrow>
     (n' = 0 \<longrightarrow> reader_calls w' = reader_calls w + (if i < resend_count then 1 else 0)) \<and>
     (n' \<noteq> 0 \<longrightarrow> reader_calls w' = reader_calls w + (resend_count - i))"
proof (induction "resend_count - i" arbitrary: i n codes valid w)
  case 0
  then have "\<not> i < resend_count" by simp
  from read_codes_from_done[OF this] 0 show ?case by simp
next
  case (Suc m)
  then have i: "i < resend_count" by simp
  show ?case
  proof (cases "readNextCode bits env (codes ! i) w")
    case None
    from read_codes_from_hang[OF i None] Suc(3) show ?thesis by simp
  next
    case (Some x)
    then obtain res buf w1 where r: "readNextCode bits env (codes ! i) w = Some (res, buf, w1)"
      by (cases x) auto
    have c1: "reader_calls w1 = Suc (reader_calls w)" using readNextCode_frame(1)[OF r] .
    have m: "m = resend_count - Suc i" using Suc(2) by simp
    show ?thesis
    proof (cases "n + res = 0")
      case True
      then show ?thesis
        using Suc(3) i c1 unfolding read_codes_from_step[OF i r] by auto
    next
      case False
      then have rec: "read_codes_from bits env (Suc i) (n + res) (codes[i := buf]) (valid[i := res]) w1
          = Some (n', c, v, w')"
        using Suc(3) unfolding read_codes_from_step[OF i r] by (auto split: if_splits)
      have "n' \<noteq> 0" using read_codes_from_mono[OF rec] False by auto
      with Suc(1)[OF m rec] c1 i show ?thesis by simp
    qed
  qed
qed

lemma read_codes_from_returns:
  assumes "17 \<le> bits"
  shows "\<exists>x. read_codes_from bits env i n codes valid w = Some x"
proof (induction "resend_count - i" arbitrary: i n codes valid w)
  case 0
  then have "\<not> i < resend_count" by simp
  from read_codes_from_done[OF this] show ?case by simp
next
  case (Suc m)
  then have i: "i < resend_count" by simp
  obtain res buf w1 where r: "readNextCode bits env (codes ! i) w = Some (res, buf, w1)"
    using readNextCode_returns[OF assms] by blast
  have m: "m = resend_count - Suc i" using Suc(2) by simp
  show ?case
    using Suc(1)[OF m, of "n + res" "codes[i := buf]" "valid[i := res]" w1]
    unfolding read_codes_from_step[OF i r] by simp
qed

lemma cons_replicate: "a < b \<Longrightarrow> x # replicate (b - Suc a) x = replicate (b - a) x"
proof -
  assume "a < b"
  then have "b - a = Suc (b - Suc a)" by simp
  then show ?thesis by simp
qed

lemma read_codes_from_silence:
  assumes sil: "\<forall>k\<ge>P. no_pulse (pulses env k)"
  shows "P \<le> pulse_idx w \<Longrightarrow> 0 < n \<Longrightarrow> i \<le> resend_count \<Longrightarrow> length valid = resend_count \<Longrightarrow>
     read_codes_from bits env i n codes valid w =
       Some (n, codes, take i valid @ replicate (resend_count - i) 0,
         w\<lparr>pulse_idx := pulse_idx w + (resend_count - i),
           reader_calls := reader_calls w + (resend_count - i)\<rparr>)"
proof (induction "resend_count - i" arbitrary: i valid w)
  case 0
  then have "\<not> i < resend_count" "i = resend_count" by simp_all
  with 0 show ?case by (simp add: read_codes_from_done)
next
  case (Suc m)
  then have i: "i < resend_count" by simp
  have np: "no_pulse (pulses env (pulse_idx w))" using sil Suc(3) by simp
  have m: "m = resend_count - Suc i" using Suc(2) by simp
  have tk: "take (Suc i) (valid[i := 0]) = take i valid @ [0]"
    using i Suc(6) by (simp add: take_Suc_conv_app_nth)
  note rp = cons_replicate[OF i, of "0::nat"]
  have "read_codes_from bits env i n codes valid w =
      read_codes_from bits env (Suc i) n codes (valid[i := 0])
        (w\<lparr>pulse_idx := Suc (pulse_idx w), reader_calls := Suc (reader_calls w)\<rparr>)"
    using Suc(4) by (simp add: read_codes_from_step[OF i readNextCode_no_signal[OF np]])
  also have "\<dots> = Some (n, codes, take (Suc i) (valid[i := 0]) @ replicate (resend_count - Suc i) 0,
         w\<lparr>pulse_idx := pulse_idx w + (resend_count - i),
           reader_calls := reader_calls w + (resend_count - i)\<rparr>)"
    using Suc(1)[OF m, of "w\<lparr>pulse_idx := Suc (pulse_idx w), reader_calls := Suc (reader_calls w)\<rparr>" "valid[i := 0]"]
      Suc(3,4,6) i by (simp add: Suc_diff_Suc)
  finally show ?case by (simp add: tk rp)
qed

lemma symbol_at_shift: "symbol_at env (p + 24 * q) j = symbol_at env p (12 * q + j)"
  by (simp add: symbol_at_def algebra_simps)

lemma read_codes_from_burst:
  assumes good: "\<forall>j < 12 * m. symbol_at env p j \<noteq> INVALID"
    and sil: "\<forall>k \<ge> p + 24 * m. no_pulse (pulses env k)"
  shows "q \<le> m \<Longrightarrow> pulse_idx w = p + 24 * q \<Longrightarrow> i + (m - q) \<le> resend_count \<Longrightarrow>
     0 < n \<or> q < m \<Longrightarrow> length valid = resend_count \<Longrightarrow> length codes = resend_count \<Longrightarrow>
     (\<forall>k<resend_count. length (codes ! k) = 13) \<Longrightarrow>
     \<exists>c v. read_codes_from bits env i n codes valid w =
       Some (n + (m - q), c, v,
         w\<lparr>pulse_idx := p + 24 * m + (resend_count - i - (m - q)),
           reader_calls := reader_calls w + (resend_count - i),
           trace := trace w @ replicate (m - q) (Delay_us 5000)\<rparr>)"
proof (induction "m - q" arbitrary: q i n codes valid w)
  case 0
  then have q: "q = m" and n: "0 < n" by simp_all
  have P: "p + 24 * m \<le> pulse_idx w" using 0(3) q by simp
  from read_codes_from_silence[OF sil P n _ 0(6), of i bits codes] 0(3,4) q
  show ?case by simp
next
  case (Suc d)
  then have q: "q < m" by simp
  have i: "i < resend_count" using Suc(5) q by simp
  have ok: "\<forall>j<12. symbol_at env (pulse_idx w) j \<noteq> INVALID"
  proof (intro allI impI)
    fix j :: nat
    assume "j < 12"
    then have "12 * q + j < 12 * m" using q by simp
    then show "symbol_at env (pulse_idx w) j \<noteq> INVALID"
      using good by (simp add: Suc(4) symbol_at_shift)
  qed
  have len: "length (codes ! i) = 13" using Suc(9) i by simp
  let ?b = "map (\<lambda>j. symbol_char (symbol_at env (pulse_idx w) j)) [0..<12] @ [NUL]"
  let ?w1 = "w\<lparr>pulse_idx := pulse_idx w + 24, trace := trace w @ [Delay_us 5000],
         reader_calls := Suc (reader_calls w)\<rparr>"
  have step: "read_codes_from bits env i n codes valid w =
      read_codes_from bits env (Suc i) (Suc n) (codes[i := ?b]) (valid[i := 1]) ?w1"
    by (simp add: read_codes_from_step[OF i readNextCode_round_trip[OF ok len]])
  have d: "d = m - Suc q" "Suc q \<le> m" using Suc(2) q by simp_all
  have rows: "\<forall>k<resend_count. length (codes[i := ?b] ! k) = 13"
    using Suc(9) Suc(8) i by (simp add: nth_list_update)
  let ?w2 = "?w1\<lparr>pulse_idx := p + 24 * m + (resend_count - Suc i - (m - Suc q)),
           reader_calls := reader_calls ?w1 + (resend_count - Suc i),
           trace := trace ?w1 @ replicate (m - Suc q) (Delay_us 5000)\<rparr>"
  have "\<exists>c v. read_codes_from bits env (Suc i) (Suc n) (codes[i := ?b]) (valid[i := 1]) ?w1 =
       Some (Suc n + (m - Suc q), c, v, ?w2)"
    using Suc(4,5) q by (intro Suc(1)[OF d _ _ _ _ _ rows]) (simp_all add: Suc(7,8))
  then obtain c v where cv: "read_codes_from bits env (Suc i) (Suc n) (codes[i := ?b]) (valid[i := 1]) ?w1 =
       Some (Suc n + (m - Suc q), c, v, ?w2)" by blast
  have e1: "Suc n + (m - Suc q) = n + (m - q)" using q by simp
  have a1: "resend_count - Suc i - (m - Suc q) = resend_count - i - (m - q)"
    using q i by simp
  have a2: "Suc (reader_calls w + (resend_count - Suc i)) = reader_calls w + (resend_count - i)"
    using i by simp
  have e2: "?w2 = w\<lparr>pulse_idx := p + 24 * m + (resend_count - i - (m - q)),
           reader_calls := reader_calls w + (resend_count - i),
           trace := trace w @ replicate (m - q) (Delay_us 5000)\<rparr>"
    unfolding a1 by (simp add: cons_replicate[OF q] a2)
  show ?case
    unfolding step using cv[unfolded e1 e2] by blast
qed


lemma loop_cases:
  assumes "read_codes bits env codes valid w = Some (n, c, v, w1)"
  shows "loop bits env codes valid w =
     (if 3 < n then
        Some (w1\<lparr>trace := trace w1 @ [Println ''DEBUG: ####''] @ report_lines c v resend_count @
           [Println (c_str (majority_result
              (fst (count_codes c v (zero_majority, emit (Println ''DEBUG: ####'') w1))))),
            Println ''DEBUG: ####'', Delay_ms 1250]\<rparr>)
      else Some w1)"
proof -
  let ?w = "emit (Println ''DEBUG: ####'') w1"
  obtain m w2 where cc: "count_codes c v (zero_majority, ?w) = (m, w2)"
    by (cases "count_codes c v (zero_majority, ?w)")
  have w2: "w2 = ?w\<lparr>trace := trace ?w @ report_lines c v resend_count\<rparr>"
    using count_codes_eq(3)[OF shape_zero, of c v ?w] cc by simp
  have "loop bits env codes valid w =
      (if 3 < n then Some (emit (Delay_ms 1250)
         (emits [Println (c_str (majority_result m)), Println ''DEBUG: ####''] w2)) else Some w1)"
    unfolding loop_def assms by (simp add: cc)
  also have "\<dots> = (if 3 < n then
        Some (w1\<lparr>trace := trace w1 @ [Println ''DEBUG: ####''] @ report_lines c v resend_count @
           [Println (c_str (majority_result (fst (count_codes c v (zero_majority, ?w))))),
            Println ''DEBUG: ####'', Delay_ms 1250]\<rparr>)
      else Some w1)"
    unfolding cc by (simp add: w2 emits_trace emit_def)
  finally show ?thesis .
qed

text \<open>
  Claim C6. A cycle whose reading loop ends with \<^verbatim>\<open>num_success\<close> at most 3 (so with
  exactly 3) prints no result and has no quiet period: \<^verbatim>\<open>loop\<close> returns in the world
  the reading loop left. With 4 or more, \<^verbatim>\<open>loop\<close> prints the readings, then one result
  line, then waits 1250 ms. The test is \<^verbatim>\<open>num_success > 3\<close>.
\<close>

theorem loop_threshold:
  assumes "read_codes bits env codes valid w = Some (n, c, v, w1)"
  shows "(n \<le> 3 \<longrightarrow> loop bits env codes valid w = Some w1) \<and>
         (3 < n \<longrightarrow> loop bits env codes valid w =
            Some (w1\<lparr>trace := trace w1 @ [Println ''DEBUG: ####''] @ report_lines c v resend_count @
               [Println (c_str (majority_result
                  (fst (count_codes c v (zero_majority, emit (Println ''DEBUG: ####'') w1))))),
                Println ''DEBUG: ####'', Delay_ms 1250]\<rparr>))"
  using loop_cases[OF assms] by simp

lemma three_codes_good: "\<forall>j < 12 * 3. symbol_at three_codes 0 j \<noteq> INVALID"
  by (simp add: symbol_at_def three_codes_def decode_def short_min_def long_min_def)

lemma three_codes_silent: "\<forall>k \<ge> 0 + 24 * 3. no_pulse (pulses three_codes k)"
  by (simp add: three_codes_def no_pulse_def)

lemma four_codes_good: "\<forall>j < 12 * 4. symbol_at four_codes 0 j \<noteq> INVALID"
  by (simp add: symbol_at_def four_codes_def decode_def short_min_def long_min_def)

lemma four_codes_silent: "\<forall>k \<ge> 0 + 24 * 4. no_pulse (pulses four_codes k)"
  by (simp add: four_codes_def no_pulse_def)

lemma start_arrays:
  "length start_valid = resend_count" "length start_codes = resend_count"
  "\<forall>k<resend_count. length (start_codes ! k) = 13"
  by (simp_all add: start_valid_def start_codes_def resend_count_def blank_buf_def)

lemma three_codes_cycle:
  "\<exists>c v. read_codes 16 three_codes start_codes start_valid idle_world =
     Some (3, c, v, \<lparr>pulse_idx = 86, sample_idx = 0, trace = replicate 3 (Delay_us 5000),
        spacer_calls = 0, reader_calls = 17, oob = False\<rparr>)"
  using read_codes_from_burst[OF three_codes_good three_codes_silent, of 0 idle_world 0 0
      start_valid start_codes 16] start_arrays
  by (simp add: read_codes_def idle_world_def resend_count_def)

lemma four_codes_cycle:
  "\<exists>c v. read_codes 16 four_codes start_codes start_valid idle_world =
     Some (4, c, v, \<lparr>pulse_idx = 109, sample_idx = 0, trace = replicate 4 (Delay_us 5000),
        spacer_calls = 0, reader_calls = 17, oob = False\<rparr>)"
  using read_codes_from_burst[OF four_codes_good four_codes_silent, of 0 idle_world 0 0
      start_valid start_codes 16] start_arrays
  by (simp add: read_codes_def idle_world_def resend_count_def)

theorem loop_threshold_witness:
  "loop 16 three_codes start_codes start_valid idle_world =
     Some \<lparr>pulse_idx = 86, sample_idx = 0, trace = replicate 3 (Delay_us 5000),
        spacer_calls = 0, reader_calls = 17, oob = False\<rparr> \<and>
   (\<exists>lines result. loop 16 four_codes start_codes start_valid idle_world =
     Some \<lparr>pulse_idx = 109, sample_idx = 0,
        trace = replicate 4 (Delay_us 5000) @ [Println ''DEBUG: ####''] @ lines @
          [Println result, Println ''DEBUG: ####'', Delay_ms 1250],
        spacer_calls = 0, reader_calls = 17, oob = False\<rparr>)"
proof
  from three_codes_cycle obtain c v where
    "read_codes 16 three_codes start_codes start_valid idle_world =
     Some (3, c, v, \<lparr>pulse_idx = 86, sample_idx = 0, trace = replicate 3 (Delay_us 5000),
        spacer_calls = 0, reader_calls = 17, oob = False\<rparr>)" by blast
  from loop_threshold[OF this]
  show "loop 16 three_codes start_codes start_valid idle_world =
     Some \<lparr>pulse_idx = 86, sample_idx = 0, trace = replicate 3 (Delay_us 5000),
        spacer_calls = 0, reader_calls = 17, oob = False\<rparr>" by simp
next
  from four_codes_cycle obtain c v where
    "read_codes 16 four_codes start_codes start_valid idle_world =
     Some (4, c, v, \<lparr>pulse_idx = 109, sample_idx = 0, trace = replicate 4 (Delay_us 5000),
        spacer_calls = 0, reader_calls = 17, oob = False\<rparr>)" by blast
  from loop_threshold[OF this]
  have "loop 16 four_codes start_codes start_valid idle_world =
     Some \<lparr>pulse_idx = 109, sample_idx = 0,
        trace = replicate 4 (Delay_us 5000) @ [Println ''DEBUG: ####''] @ report_lines c v resend_count @
          [Println (c_str (majority_result (fst (count_codes c v (zero_majority,
             emit (Println ''DEBUG: ####'') \<lparr>pulse_idx = 109, sample_idx = 0,
               trace = replicate 4 (Delay_us 5000), spacer_calls = 0, reader_calls = 17,
               oob = False\<rparr>))))),
           Println ''DEBUG: ####'', Delay_ms 1250],
        spacer_calls = 0, reader_calls = 17, oob = False\<rparr>" by simp
  then show "\<exists>lines result. loop 16 four_codes start_codes start_valid idle_world =
     Some \<lparr>pulse_idx = 109, sample_idx = 0,
        trace = replicate 4 (Delay_us 5000) @ [Println ''DEBUG: ####''] @ lines @
          [Println result, Println ''DEBUG: ####'', Delay_ms 1250],
        spacer_calls = 0, reader_calls = 17, oob = False\<rparr>" by blast
qed

text \<open>
  The reading loop where it ends. If the first call of \<^verbatim>\<open>readNextCode\<close> returns 0, the
  loop stops after that one call. If it returns 1, every later call is made whatever it
  returns: a reading loop that ends has made exactly \<open>resend_count\<close> calls. With an
  \<^verbatim>\<open>int\<close> of 17 bits or more the reading loop always ends.
\<close>

lemma read_codes_early_exit:
  "(\<forall>b w1. readNextCode bits env (codes ! 0) w = Some (0, b, w1) \<longrightarrow>
      read_codes bits env codes valid w = Some (0, codes[0 := b], valid[0 := 0], w1) \<and>
      reader_calls w1 = reader_calls w + 1) \<and>
   (\<forall>r b w1 n c v w'. readNextCode bits env (codes ! 0) w = Some (r, b, w1) \<and> r \<noteq> 0 \<and>
      read_codes bits env codes valid w = Some (n, c, v, w') \<longrightarrow>
      reader_calls w' = reader_calls w + resend_count) \<and>
   (17 \<le> bits \<longrightarrow> (\<exists>x. read_codes bits env codes valid w = Some x))"
proof (intro conjI)
  have i: "0 < resend_count" by (simp add: resend_count_def)
  show "\<forall>b w1. readNextCode bits env (codes ! 0) w = Some (0, b, w1) \<longrightarrow>
      read_codes bits env codes valid w = Some (0, codes[0 := b], valid[0 := 0], w1) \<and>
      reader_calls w1 = reader_calls w + 1"
  proof (intro allI impI)
    fix b w1
    assume r: "readNextCode bits env (codes ! 0) w = Some (0, b, w1)"
    show "read_codes bits env codes valid w = Some (0, codes[0 := b], valid[0 := 0], w1) \<and>
        reader_calls w1 = reader_calls w + 1"
      using readNextCode_frame(1)[OF r] unfolding read_codes_def read_codes_from_step[OF i r] by simp
  qed
  show "\<forall>r b w1 n c v w'. readNextCode bits env (codes ! 0) w = Some (r, b, w1) \<and> r \<noteq> 0 \<and>
      read_codes bits env codes valid w = Some (n, c, v, w') \<longrightarrow>
      reader_calls w' = reader_calls w + resend_count"
  proof (intro allI impI)
    fix r b w1 n c v w'
    assume a: "readNextCode bits env (codes ! 0) w = Some (r, b, w1) \<and> r \<noteq> 0 \<and>
        read_codes bits env codes valid w = Some (n, c, v, w')"
    then have r: "readNextCode bits env (codes ! 0) w = Some (r, b, w1)" and r0: "r \<noteq> 0"
      and rc: "read_codes_from bits env 0 0 codes valid w = Some (n, c, v, w')"
      by (simp_all add: read_codes_def)
    have rec: "read_codes_from bits env (Suc 0) (0 + r) (codes[0 := b]) (valid[0 := r]) w1
        = Some (n, c, v, w')"
      using rc r0 unfolding read_codes_from_step[OF i r] by (auto split: if_splits)
    have "n \<noteq> 0" using read_codes_from_mono[OF rec] r0 by auto
    with read_codes_from_calls[OF rec] readNextCode_frame(1)[OF r]
    show "reader_calls w' = reader_calls w + resend_count"
      by (simp add: resend_count_def)
  qed
  show "17 \<le> bits \<longrightarrow> (\<exists>x. read_codes bits env codes valid w = Some x)"
    using read_codes_from_returns by (simp add: read_codes_def)
qed


lemma read_codes_early_exit_examples:
  "(\<exists>c v w1. read_codes 16 stuck_high start_codes start_valid idle_world = Some (0, c, v, w1) \<and>
      reader_calls w1 = 1) \<and>
   (\<exists>n c v w'. read_codes 16 three_codes start_codes start_valid idle_world = Some (n, c, v, w') \<and>
      reader_calls w' = 17) \<and>
   (\<exists>x. read_codes 32 stuck_high start_codes start_valid idle_world = Some x)"
proof (intro conjI)
  have np: "no_pulse (pulses stuck_high (pulse_idx idle_world))"
    by (simp add: no_pulse_def stuck_high_def)
  from read_codes_early_exit[of 16 stuck_high start_codes idle_world start_valid]
    readNextCode_no_signal[OF np, of 16 "start_codes ! 0"]
  show "\<exists>c v w1. read_codes 16 stuck_high start_codes start_valid idle_world = Some (0, c, v, w1) \<and>
      reader_calls w1 = 1"
    by (simp add: idle_world_def)
next
  have ok: "\<forall>j<12. symbol_at three_codes (pulse_idx idle_world) j \<noteq> INVALID"
    using three_codes_good by (simp add: idle_world_def)
  have len: "length (start_codes ! 0) = 13" using start_arrays(3) by (simp add: resend_count_def)
  from three_codes_cycle obtain c v where
    rc: "read_codes 16 three_codes start_codes start_valid idle_world =
     Some (3, c, v, \<lparr>pulse_idx = 86, sample_idx = 0, trace = replicate 3 (Delay_us 5000),
        spacer_calls = 0, reader_calls = 17, oob = False\<rparr>)" by blast
  from read_codes_early_exit[of 16 three_codes start_codes idle_world start_valid]
    readNextCode_round_trip[OF ok len, of 16] rc
  show "\<exists>n c v w'. read_codes 16 three_codes start_codes start_valid idle_world = Some (n, c, v, w') \<and>
      reader_calls w' = 17"
    by simp
next
  from read_codes_early_exit[of 32 stuck_high start_codes idle_world start_valid]
  show "\<exists>x. read_codes 32 stuck_high start_codes start_valid idle_world = Some x" by simp
qed

lemma burst_then_stuck_first:
  "readNextCode 16 burst_then_stuck (start_codes ! 0) idle_world =
     Some (1, map (\<lambda>j. symbol_char (symbol_at burst_then_stuck 0 j)) [0..<12] @ [NUL],
       \<lparr>pulse_idx = 24, sample_idx = 0, trace = [Delay_us 5000], spacer_calls = 0,
        reader_calls = 1, oob = False\<rparr>)"
proof -
  have ok: "\<forall>j<12. symbol_at burst_then_stuck (pulse_idx idle_world) j \<noteq> INVALID"
    by (simp add: symbol_at_def burst_then_stuck_def idle_world_def decode_def short_min_def long_min_def)
  have len: "length (start_codes ! 0) = 13" using start_arrays(3) by (simp add: resend_count_def)
  show ?thesis
    using readNextCode_round_trip[OF ok len, of 16] by (simp add: idle_world_def)
qed

lemma burst_then_stuck_second:
  "readNextCode 16 burst_then_stuck buf
     \<lparr>pulse_idx = 24, sample_idx = 0, trace = [Delay_us 5000], spacer_calls = 0,
      reader_calls = 1, oob = False\<rparr> = None"
proof -
  let ?w = "\<lparr>pulse_idx = 24, sample_idx = 0, trace = [Delay_us 5000], spacer_calls = 0,
      reader_calls = 1, oob = False\<rparr>"
  have bad: "symbol_at burst_then_stuck (pulse_idx ?w) 0 = INVALID"
    by (simp add: symbol_at_def burst_then_stuck_def decode_def short_min_def long_min_def)
  have both: "\<not> no_pulse (pulses burst_then_stuck (pulse_idx ?w)) \<and>
      \<not> no_pulse (pulses burst_then_stuck (pulse_idx ?w + 1))"
    by (simp add: no_pulse_def burst_then_stuck_def short_min_def)
  have high: "\<forall>k. line burst_then_stuck k = HIGH" by (simp add: burst_then_stuck_def)
  from readNextCode_resync_cases[where k = 0 and env = burst_then_stuck and w = ?w and buf = buf and bits = 16]
    bad both
  obtain b w1 where "readNextCode 16 burst_then_stuck buf ?w =
      findNextSpacer 16 burst_then_stuck w1 \<bind> (\<lambda>w2. Some (0, b, w2))"
    by auto
  then show ?thesis by (simp add: findNextSpacer_never_low[OF high])
qed

text \<open>
  Claim C7, at the input where the sketch breaks it: an \<^verbatim>\<open>int\<close> of 16 bits, one good
  repetition, then a pair that does not decode, on a line that reads high at every
  sample. The first call of \<^verbatim>\<open>readNextCode\<close> returns 1; the second enters
  \<^verbatim>\<open>findNextSpacer\<close>, which never returns (the defect of claim C8): the reading loop makes
  two calls, not \<open>resend_count\<close>, and never ends.
\<close>

theorem read_codes_hangs_int16:
  "map_option fst (readNextCode 16 burst_then_stuck (start_codes ! 0) idle_world) = Some 1 \<and>
   read_codes 16 burst_then_stuck start_codes start_valid idle_world = None"
proof
  show "map_option fst (readNextCode 16 burst_then_stuck (start_codes ! 0) idle_world) = Some 1"
    by (simp add: burst_then_stuck_first)
next
  have i0: "0 < resend_count" and i1: "Suc 0 < resend_count" by (simp_all add: resend_count_def)
  have "read_codes 16 burst_then_stuck start_codes start_valid idle_world =
      read_codes_from 16 burst_then_stuck (Suc 0) 1
        (start_codes[0 := map (\<lambda>j. symbol_char (symbol_at burst_then_stuck 0 j)) [0..<12] @ [NUL]])
        (start_valid[0 := 1])
        \<lparr>pulse_idx = 24, sample_idx = 0, trace = [Delay_us 5000], spacer_calls = 0,
         reader_calls = 1, oob = False\<rparr>"
    unfolding read_codes_def read_codes_from_step[OF i0 burst_then_stuck_first] by simp
  also have "\<dots> = None"
    by (rule read_codes_from_hang[OF i1 burst_then_stuck_second])
  finally show "read_codes 16 burst_then_stuck start_codes start_valid idle_world = None" .
qed

end
